theory Spec2Isabelle
  imports Main "HOL-Library.Word" "HOL-Library.Multiset"
begin

section \<open>Streaming ZIP reader: bytes, streams and failures\<close>

text \<open>
  A \<^verbatim>\<open>Uint8Array\<close> is a list of 8-bit words. A \<^verbatim>\<open>ReadableStream<Uint8Array>\<close> that is
  read front to back is the list of the chunks it has not delivered yet; it is closed
  once that list is empty. Numbers read with \<^verbatim>\<open>getUint16\<close> and \<^verbatim>\<open>getUint32\<close> are
  unsigned and kept as \<open>nat\<close>; offsets the code computes with subtraction are \<open>int\<close>.
  A rejected promise or a thrown exception is the left summand of a result.
\<close>

type_synonym byte = "8 word"
type_synonym bytes = "byte list"
type_synonym stream = "bytes list"

datatype error = RangeError | TypeError | Error string

text \<open>\<^verbatim>\<open>await p\<close> followed by the rest of an async function: a rejection is passed on.\<close>

definition await :: "error + 'a \<Rightarrow> ('a \<Rightarrow> error + 'b) \<Rightarrow> error + 'b" where
  "await p k = (case p of Inl e \<Rightarrow> Inl e | Inr v \<Rightarrow> k v)"

lemma await_cong [fundef_cong]:
  "p = p' \<Longrightarrow> (\<And>v. p' = Inr v \<Longrightarrow> k v = k' v) \<Longrightarrow> await p k = await p' k'"
  by (cases p') (simp_all add: await_def)

lemma await_Inr [simp]: "await (Inr v) k = k v"
  by (simp add: await_def)

lemma await_Inl [simp]: "await (Inl e) k = Inl e"
  by (simp add: await_def)

text \<open>
  The platform services the reader is built on and that the repository does not
  implement: \<^verbatim>\<open>TextDecoderStream\<close> (UTF-8) and \<^verbatim>\<open>DecompressionStream('deflate-raw')\<close>.
  Both are functions of the bytes that flow through them.
\<close>

record platform =
  textDecoder :: "bytes \<Rightarrow> string"
  inflateRaw :: "bytes \<Rightarrow> error + bytes"

section \<open>Byte cursor\<close>

text \<open>
  \<^verbatim>\<open>reader.read(new Uint8Array(m))\<close> on a BYOB reader: \<open>None\<close> is \<^verbatim>\<open>done\<close>; otherwise at
  most \<open>m\<close> bytes of the chunk at the head of the queue are delivered and the rest of
  that chunk stays queued.
\<close>

fun byobRead :: "nat \<Rightarrow> stream \<Rightarrow> bytes option \<times> stream" where
  "byobRead m [] = (None, [])"
| "byobRead m (c # cs) =
     (Some (take m c), (if length c \<le> m then cs else drop m c # cs))"

text \<open>
  The \<^verbatim>\<open>pull\<close> callback of \<^verbatim>\<open>limitBytes\<close>, run until the limited stream closes: the
  chunks it enqueues and the parent stream it leaves behind.
\<close>

function limitBytes_pull :: "nat \<Rightarrow> nat \<Rightarrow> stream \<Rightarrow> bytes list \<times> stream" where
  "limitBytes_pull bytes offset s =
     (case byobRead (bytes - offset) s of
        (None, s') \<Rightarrow> ([], s')
      | (Some v, s') \<Rightarrow>
          (if offset + length v \<ge> bytes then ([v], s')
           else (case limitBytes_pull bytes (offset + length v) s' of
                   (vs, s'') \<Rightarrow> (v # vs, s''))))"
  by pat_completeness auto
termination
proof (relation "measure (\<lambda>(bytes, offset, s). length s)", goal_cases)
  case 1
  then show ?case by simp
next
  case (2 bytes offset s x1 x2 v)
  then show ?case by (cases s) (auto split: if_splits)
qed

definition limitBytes :: "stream \<Rightarrow> nat \<Rightarrow> bytes list \<times> stream" where
  "limitBytes stream bytes =
     (if bytes = 0 then ([], stream) else limitBytes_pull bytes 0 stream)"

text \<open>\<^verbatim>\<open>view.set(chunk, offset)\<close> on a typed array: a chunk that does not fit is a RangeError.\<close>

definition view_set :: "bytes \<Rightarrow> bytes \<Rightarrow> nat \<Rightarrow> error + bytes" where
  "view_set buffer chunk offset =
     (if length buffer < offset + length chunk then Inl RangeError
      else Inr (take offset buffer @ chunk @ drop (offset + length chunk) buffer))"

fun concatNBytes_transform :: "bytes \<Rightarrow> nat \<Rightarrow> bytes list \<Rightarrow> error + bytes" where
  "concatNBytes_transform buffer offset [] = Inr buffer"
| "concatNBytes_transform buffer offset (chunk # chunks) =
     await (view_set buffer chunk offset)
       (\<lambda>buffer'. concatNBytes_transform buffer' (offset + length chunk) chunks)"

text \<open>
  \<^verbatim>\<open>concatNBytes(totalBytes)\<close>: a zero-filled buffer of \<open>totalBytes\<close> bytes, each chunk
  copied in at the running offset, the whole buffer enqueued by \<^verbatim>\<open>flush\<close>.
\<close>

definition concatNBytes :: "nat \<Rightarrow> bytes list \<Rightarrow> error + bytes" where
  "concatNBytes totalBytes chunks =
     concatNBytes_transform (replicate totalBytes 0) 0 chunks"

definition concatBytesStream :: "bytes list \<Rightarrow> bytes" where
  "concatBytesStream chunks = concat chunks"

definition concatUint8Array :: "bytes list \<Rightarrow> bytes" where
  "concatUint8Array arrays = concat arrays"

text \<open>\<^verbatim>\<open>readBytes(stream, bytes?)\<close>: the value read and the stream left behind.\<close>

definition readBytes :: "stream \<Rightarrow> nat option \<Rightarrow> error + (bytes \<times> stream)" where
  "readBytes stream bytes =
     (case bytes of
        None \<Rightarrow> Inr (concatBytesStream stream, [])
      | Some n \<Rightarrow>
          (case limitBytes stream n of
             (chunks, stream') \<Rightarrow>
               await (concatNBytes n chunks) (\<lambda>value. Inr (value, stream'))))"

text \<open>
  \<^verbatim>\<open>TextDecoderStream\<close> followed by \<^verbatim>\<open>concatString\<close>: the decoded pieces joined; the
  empty string when no byte came through.
\<close>

definition textDecoderStream :: "platform \<Rightarrow> bytes list \<Rightarrow> string" where
  "textDecoderStream pl chunks =
     (if concat chunks = [] then [] else textDecoder pl (concat chunks))"

definition readString :: "platform \<Rightarrow> stream \<Rightarrow> nat \<Rightarrow> string \<times> stream" where
  "readString pl stream bytes =
     (case limitBytes stream bytes of
        (chunks, stream') \<Rightarrow> (textDecoderStream pl chunks, stream'))"

subsection \<open>DataView\<close>

definition le_nat :: "bytes \<Rightarrow> nat" where
  "le_nat bs = foldr (\<lambda>b n. unat b + 256 * n) bs 0"

definition getUint16 :: "bytes \<Rightarrow> int \<Rightarrow> error + nat" where
  "getUint16 view byteOffset =
     (if byteOffset < 0 \<or> int (length view) < byteOffset + 2 then Inl RangeError
      else Inr (le_nat (take 2 (drop (nat byteOffset) view))))"

definition getUint32 :: "bytes \<Rightarrow> int \<Rightarrow> error + nat" where
  "getUint32 view byteOffset =
     (if byteOffset < 0 \<or> int (length view) < byteOffset + 4 then Inl RangeError
      else Inr (le_nat (take 4 (drop (nat byteOffset) view))))"

definition endsWith :: "string \<Rightarrow> string \<Rightarrow> bool" where
  "endsWith s t = (length t \<le> length s \<and> drop (length s - length t) s = t)"

section \<open>Binary records\<close>

definition CENTRAL_DIRECTORY_END_SCAN_CHUNK_SIZE :: int where
  "CENTRAL_DIRECTORY_END_SCAN_CHUNK_SIZE = 50 * 1024"

definition FILE_HEADER_SIZE :: nat where
  "FILE_HEADER_SIZE = 32"

definition SIGNATURE_FILE :: nat where
  "SIGNATURE_FILE = 0x04034b50"

definition SIGNATURE_CENTRAL_DIRECTORY_START :: nat where
  "SIGNATURE_CENTRAL_DIRECTORY_START = 0x02014b50"

definition SIGNATURE_CENTRAL_DIRECTORY_END :: nat where
  "SIGNATURE_CENTRAL_DIRECTORY_END = 0x06054b50"

text \<open>
  \<open>body\<close> is the value both accessors \<^verbatim>\<open>bytes()\<close> and \<^verbatim>\<open>text()\<close> of a file entry are
  built from.
\<close>

record FileEntry =
  signature :: nat
  version :: nat
  generalPurpose :: nat
  compressionMethod :: nat
  lastModifiedTime :: nat
  lastModifiedDate :: nat
  crc :: nat
  compressedSize :: nat
  uncompressedSize :: nat
  fileNameLength :: nat
  fileName :: string
  isDirectory :: bool
  extraLength :: nat
  extra :: bytes
  body :: bytes

record CentralDirectoryEndEntry =
  signature :: nat
  numberOfDisks :: nat
  centralDirectoryStartDisk :: nat
  numberCentralDirectoryRecordsOnThisDisk :: nat
  numberCentralDirectoryRecords :: nat
  centralDirectorySize :: nat
  centralDirectoryOffset :: nat
  commentLength :: nat
  comment :: string

record CentralDirectoryEntry =
  signature :: nat
  versionCreated :: nat
  versionNeeded :: nat
  generalPurpose :: nat
  compressionMethod :: nat
  lastModifiedTime :: nat
  lastModifiedDate :: nat
  crc :: nat
  compressedSize :: nat
  uncompressedSize :: nat
  fileNameLength :: nat
  extraLength :: nat
  fileCommentLength :: nat
  diskNumber :: nat
  internalAttributes :: nat
  externalAttributes :: nat
  firstByteAt :: nat
  lastByteAt :: int
  fileName :: string
  extra :: bytes
  fileComment :: string
  isDirectory :: bool

datatype ZipEntry =
    File FileEntry
  | CentralDirectory CentralDirectoryEntry
  | CentralDirectoryEnd CentralDirectoryEndEntry

fun signature_of :: "ZipEntry \<Rightarrow> nat" where
  "signature_of (File e) = FileEntry.signature e"
| "signature_of (CentralDirectory e) = signature e"
| "signature_of (CentralDirectoryEnd e) = CentralDirectoryEndEntry.signature e"

text \<open>
  The two lines every decoder starts with:
  \<^verbatim>\<open>new DataView((await readBytes(stream, 4))!.buffer).getUint32(0, true)\<close>.
\<close>

definition readSignature :: "stream \<Rightarrow> error + (nat \<times> stream)" where
  "readSignature stream =
     await (readBytes stream (Some 4)) (\<lambda>(sigData, stream').
     await (getUint32 sigData 0) (\<lambda>signature. Inr (signature, stream')))"

definition readFileEntry ::
  "platform \<Rightarrow> stream \<Rightarrow> bool \<Rightarrow> error + (FileEntry option \<times> stream)" where
  "readFileEntry pl stream skipSignature =
     await (if skipSignature then Inr (SIGNATURE_FILE, stream) else readSignature stream)
       (\<lambda>(sig, s0).
     if sig \<noteq> SIGNATURE_FILE then Inr (None, s0) else
     await (readBytes s0 (Some 26)) (\<lambda>(data, s1).
     await (getUint32 data 0) (\<lambda>version'.
     await (getUint16 data 2) (\<lambda>generalPurpose'.
     await (getUint16 data 4) (\<lambda>compressionMethod'.
     await (getUint16 data 6) (\<lambda>lastModifiedTime'.
     await (getUint16 data 8) (\<lambda>lastModifiedDate'.
     await (getUint32 data 10) (\<lambda>crc'.
     await (getUint32 data 14) (\<lambda>compressedSize'.
     await (getUint32 data 18) (\<lambda>uncompressedSize'.
     await (getUint16 data 22) (\<lambda>fileNameLength'.
     await (getUint16 data 24) (\<lambda>extraLength'.
     case readString pl s1 fileNameLength' of (fileName', s2) \<Rightarrow>
     await (readBytes s2 (Some extraLength')) (\<lambda>(extra', s3).
     case limitBytes s3 compressedSize' of (bodyStream, s4) \<Rightarrow>
     await (if compressionMethod' = 8 then inflateRaw pl (concat bodyStream)
            else Inr (concatBytesStream bodyStream)) (\<lambda>body'.
     Inr (Some \<lparr>FileEntry.signature = SIGNATURE_FILE, version = version',
            generalPurpose = generalPurpose', compressionMethod = compressionMethod',
            lastModifiedTime = lastModifiedTime', lastModifiedDate = lastModifiedDate',
            crc = crc', compressedSize = compressedSize',
            uncompressedSize = uncompressedSize', fileNameLength = fileNameLength',
            fileName = fileName', isDirectory = endsWith fileName' ''/'',
            extraLength = extraLength', extra = extra', body = body'\<rparr>, s4)))))))))))))))"

definition readCentralDirectory ::
  "platform \<Rightarrow> stream \<Rightarrow> bool \<Rightarrow> error + (CentralDirectoryEntry option \<times> stream)" where
  "readCentralDirectory pl stream skipSignature =
     await (if skipSignature then Inr (SIGNATURE_CENTRAL_DIRECTORY_START, stream)
            else readSignature stream)
       (\<lambda>(sig, s0).
     if sig \<noteq> SIGNATURE_CENTRAL_DIRECTORY_START then Inr (None, s0) else
     await (readBytes s0 (Some 42)) (\<lambda>(data, s1).
     await (getUint16 data 0) (\<lambda>versionCreated'.
     await (getUint16 data 2) (\<lambda>versionNeeded'.
     await (getUint16 data 4) (\<lambda>generalPurpose'.
     await (getUint16 data 6) (\<lambda>compressionMethod'.
     await (getUint16 data 8) (\<lambda>lastModifiedTime'.
     await (getUint16 data 10) (\<lambda>lastModifiedDate'.
     await (getUint32 data 12) (\<lambda>crc'.
     await (getUint32 data 16) (\<lambda>compressedSize'.
     await (getUint32 data 20) (\<lambda>uncompressedSize'.
     await (getUint16 data 24) (\<lambda>fileNameLength'.
     await (getUint16 data 26) (\<lambda>extraLength'.
     await (getUint16 data 28) (\<lambda>fileCommentLength'.
     await (getUint16 data 30) (\<lambda>diskNumber'.
     await (getUint16 data 32) (\<lambda>internalAttributes'.
     await (getUint32 data 34) (\<lambda>externalAttributes'.
     await (getUint32 data 38) (\<lambda>firstByteAt'.
     case readString pl s1 fileNameLength' of (fileName', s2) \<Rightarrow>
     await (readBytes s2 (Some extraLength')) (\<lambda>(extra', s3).
     case readString pl s3 fileCommentLength' of (fileComment', s4) \<Rightarrow>
     Inr (Some \<lparr>signature = SIGNATURE_CENTRAL_DIRECTORY_START,
            versionCreated = versionCreated', versionNeeded = versionNeeded',
            generalPurpose = generalPurpose', compressionMethod = compressionMethod',
            lastModifiedTime = lastModifiedTime', lastModifiedDate = lastModifiedDate',
            crc = crc', compressedSize = compressedSize',
            uncompressedSize = uncompressedSize', fileNameLength = fileNameLength',
            extraLength = extraLength', fileCommentLength = fileCommentLength',
            diskNumber = diskNumber', internalAttributes = internalAttributes',
            externalAttributes = externalAttributes', firstByteAt = firstByteAt',
            lastByteAt = int firstByteAt' + int FILE_HEADER_SIZE + int fileNameLength'
              + int fileCommentLength' + int extraLength' + int compressedSize' - 1,
            fileName = fileName', extra = extra', fileComment = fileComment',
            isDirectory = endsWith fileName' ''/''\<rparr>, s4))))))))))))))))))))"

definition readEndCentralDirectory ::
  "platform \<Rightarrow> stream \<Rightarrow> bool \<Rightarrow> error + (CentralDirectoryEndEntry option \<times> stream)"
where
  "readEndCentralDirectory pl stream skipSignature =
     await (if skipSignature then Inr (SIGNATURE_CENTRAL_DIRECTORY_END, stream)
            else readSignature stream)
       (\<lambda>(sig, s0).
     if sig \<noteq> SIGNATURE_CENTRAL_DIRECTORY_END then Inr (None, s0) else
     await (readBytes s0 (Some 18)) (\<lambda>(data, s1).
     await (getUint16 data 0) (\<lambda>numberOfDisks'.
     await (getUint16 data 2) (\<lambda>centralDirectoryStartDisk'.
     await (getUint16 data 4) (\<lambda>numberCentralDirectoryRecordsOnThisDisk'.
     await (getUint16 data 6) (\<lambda>numberCentralDirectoryRecords'.
     await (getUint32 data 8) (\<lambda>centralDirectorySize'.
     await (getUint32 data 12) (\<lambda>centralDirectoryOffset'.
     await (getUint16 data 16) (\<lambda>commentLength'.
     case readString pl s1 commentLength' of (comment', s2) \<Rightarrow>
     Inr (Some \<lparr>CentralDirectoryEndEntry.signature = SIGNATURE_CENTRAL_DIRECTORY_END,
            numberOfDisks = numberOfDisks',
            centralDirectoryStartDisk = centralDirectoryStartDisk',
            numberCentralDirectoryRecordsOnThisDisk =
              numberCentralDirectoryRecordsOnThisDisk',
            numberCentralDirectoryRecords = numberCentralDirectoryRecords',
            centralDirectorySize = centralDirectorySize',
            centralDirectoryOffset = centralDirectoryOffset',
            commentLength = commentLength', comment = comment'\<rparr>, s2))))))))))"

definition readNextEntry ::
  "platform \<Rightarrow> stream \<Rightarrow> error + (ZipEntry option \<times> stream)" where
  "readNextEntry pl stream =
     await (readSignature stream) (\<lambda>(signature, s).
     if signature = SIGNATURE_FILE then
       await (readFileEntry pl s True) (\<lambda>(e, s'). Inr (map_option File e, s'))
     else if signature = SIGNATURE_CENTRAL_DIRECTORY_START then
       await (readCentralDirectory pl s True)
         (\<lambda>(e, s'). Inr (map_option CentralDirectory e, s'))
     else if signature = SIGNATURE_CENTRAL_DIRECTORY_END then
       await (readEndCentralDirectory pl s True)
         (\<lambda>(e, s'). Inr (map_option CentralDirectoryEnd e, s'))
     else Inr (None, s))"

text \<open>
  One call of the \<^verbatim>\<open>pull\<close> callback of \<^verbatim>\<open>zipEntries\<close>: it enqueues an entry or closes
  the sequence; an exception makes it call \<^verbatim>\<open>controller.error\<close> (the left summand).
\<close>

datatype 'a pulled = Enqueue 'a | Close

definition zipEntries_pull ::
  "platform \<Rightarrow> stream \<Rightarrow> error + (ZipEntry pulled \<times> stream)" where
  "zipEntries_pull pl stream =
     await (readNextEntry pl stream) (\<lambda>(entry, stream').
       case entry of None \<Rightarrow> Inr (Close, stream')
       | Some e \<Rightarrow> Inr (Enqueue e, stream'))"

section \<open>Selection predicate\<close>

text \<open>
  \<^verbatim>\<open>const predicate = ({ isDirectory, uncompressedSize }: CentralDirectoryEntry) =>
      !isDirectory || uncompressedSize !== 0;\<close>
\<close>

definition predicate :: "CentralDirectoryEntry \<Rightarrow> bool" where
  "predicate e = (\<not> isDirectory e \<or> uncompressedSize e \<noteq> 0)"

definition filterStream :: "('a \<Rightarrow> bool) \<Rightarrow> 'a list \<Rightarrow> 'a list" where
  "filterStream p chunks = filter p chunks"

section \<open>Partitioner\<close>

text \<open>
  \<^verbatim>\<open>partitionNearbyEntries\<close> builds a transform stream around two variables,
  \<^verbatim>\<open>lastFileEndsAt\<close> and \<^verbatim>\<open>currentChunk\<close>. \<open>partition_transform\<close> is its
  \<^verbatim>\<open>transform\<close> callback and \<open>partition_flush\<close> its \<^verbatim>\<open>flush\<close> callback; each returns
  the chunks it enqueues. When a chunk is enqueued the variable is rebound to a fresh
  array, so an enqueued partition is never changed afterwards.
\<close>

record partition_state =
  lastFileEndsAt :: int
  currentChunk :: "CentralDirectoryEntry list"

definition partition_init :: partition_state where
  "partition_init = \<lparr>lastFileEndsAt = 0, currentChunk = []\<rparr>"

definition default_maxGap :: int where
  "default_maxGap = - 10 * 1024"

definition partition_transform ::
  "int \<Rightarrow> CentralDirectoryEntry \<Rightarrow> partition_state
     \<Rightarrow> CentralDirectoryEntry list list \<times> partition_state" where
  "partition_transform maxGap zipEntry st =
     (if int (firstByteAt zipEntry) > lastFileEndsAt st + maxGap
      then ([currentChunk st],
            \<lparr>lastFileEndsAt = lastByteAt zipEntry, currentChunk = [] @ [zipEntry]\<rparr>)
      else ([],
            \<lparr>lastFileEndsAt = lastByteAt zipEntry,
             currentChunk = currentChunk st @ [zipEntry]\<rparr>))"

definition partition_flush :: "partition_state \<Rightarrow> CentralDirectoryEntry list list" where
  "partition_flush st = [currentChunk st]"

text \<open>The chunks enqueued while the records \<open>es\<close> are written and the stream is closed.\<close>

fun partition_run ::
  "int \<Rightarrow> partition_state \<Rightarrow> CentralDirectoryEntry list \<Rightarrow> CentralDirectoryEntry list list"
where
  "partition_run maxGap st [] = partition_flush st"
| "partition_run maxGap st (e # es) =
     (case partition_transform maxGap e st of
        (out, st') \<Rightarrow> out @ partition_run maxGap st' es)"

definition partitionNearbyEntries ::
  "int \<Rightarrow> CentralDirectoryEntry list \<Rightarrow> CentralDirectoryEntry list list" where
  "partitionNearbyEntries maxGap es = partition_run maxGap partition_init es"

section \<open>Byte sources and the end-of-central-directory locator\<close>

text \<open>
  \<^verbatim>\<open>type BytesSource = { length: number; streamBytes: (start, end) => Promise<...> }\<close>.
  The promise of \<^verbatim>\<open>streamBytes\<close> may be rejected.
\<close>

record BytesSource =
  source_length :: nat
  streamBytes :: "int \<Rightarrow> int \<Rightarrow> error + stream"

text \<open>\<^verbatim>\<open>new Blob([bytes]).stream()\<close>: nothing is delivered for an empty blob.\<close>

definition blob_stream :: "bytes \<Rightarrow> stream" where
  "blob_stream bs = (if bs = [] then [] else [bs])"

text \<open>
  A source \<open>serves\<close> the archive \<open>data\<close> when its length is that of \<open>data\<close> and every
  request for an inclusive range inside the archive is answered by a stream, chunked in
  any way, of exactly the bytes of that range. \<open>memorySource\<close> is the source that holds
  the archive in memory and answers with one chunk.
\<close>

definition serves :: "BytesSource \<Rightarrow> bytes \<Rightarrow> bool" where
  "serves source data \<longleftrightarrow>
     source_length source = length data \<and>
     (\<forall>start end. 0 \<le> start \<and> start \<le> end \<and> end < int (length data) \<longrightarrow>
        (\<exists>s. streamBytes source start end = Inr s \<and>
             concat s = take (nat (end - start + 1)) (drop (nat start) data)))"

definition memorySource :: "bytes \<Rightarrow> BytesSource" where
  "memorySource data =
     \<lparr>source_length = length data,
      streamBytes = (\<lambda>start end.
        Inr (blob_stream (take (nat (end - start + 1)) (drop (nat start) data))))\<rparr>"

text \<open>
  The body of the \<^verbatim>\<open>for\<close> loop of \<^verbatim>\<open>streamCentralDirectory\<close> once the signature has
  been found at index \<open>i\<close> of the chunk just fetched: \<open>view\<close> is the \<^verbatim>\<open>DataView\<close> of that
  chunk, \<open>centralDirectory\<close> the buffer accumulated so far.
\<close>

definition streamCentralDirectory_found ::
  "BytesSource \<Rightarrow> bytes \<Rightarrow> bytes \<Rightarrow> int \<Rightarrow> int \<Rightarrow> error + stream" where
  "streamCentralDirectory_found source view centralDirectory chunkStart i =
     (let centralDirectoryLengthAt = i + 12;
          centralDirectoryOffsetAt = centralDirectoryLengthAt + 4
      in if int (length centralDirectory) < centralDirectoryOffsetAt + 4
         then Inl (Error ''Central directory not found'')
         else await (getUint32 view centralDirectoryOffsetAt) (\<lambda>dirStart.
           if int dirStart < chunkStart then
             await (streamBytes source (int dirStart) (chunkStart - 1)) (\<lambda>s.
             await (readBytes s None) (\<lambda>(missingBytes, _).
               Inr (blob_stream (concatUint8Array [missingBytes, centralDirectory]))))
           else if int dirStart > chunkStart then
             Inr (blob_stream (drop (nat (int dirStart - chunkStart)) centralDirectory))
           else Inr (blob_stream centralDirectory)))"

text \<open>
  The \<^verbatim>\<open>for (let i = view.byteLength - 4; i >= 0; i--)\<close> loop from index \<open>i\<close> downwards:
  \<open>Inr None\<close> when it ends without a match.
\<close>

function streamCentralDirectory_scan ::
  "BytesSource \<Rightarrow> bytes \<Rightarrow> bytes \<Rightarrow> int \<Rightarrow> int \<Rightarrow> error + stream option" where
  "streamCentralDirectory_scan source view centralDirectory chunkStart i =
     (if i \<ge> 0 then
        await (getUint32 view i) (\<lambda>sig.
          if sig \<noteq> SIGNATURE_CENTRAL_DIRECTORY_END
          then streamCentralDirectory_scan source view centralDirectory chunkStart (i - 1)
          else await (streamCentralDirectory_found source view centralDirectory chunkStart i)
                 (\<lambda>s. Inr (Some s)))
      else Inr None)"
  by pat_completeness auto
termination
  by (relation "measure (\<lambda>(source, view, centralDirectory, chunkStart, i). nat (i + 1))")
     auto

declare streamCentralDirectory_scan.simps [simp del]

text \<open>
  The \<^verbatim>\<open>do ... while (chunkStart >= 0)\<close> loop. Nothing in the code bounds the number of
  its iterations, so the model counts them: \<open>None\<close> means that the loop is still running
  after \<open>fuel\<close> iterations.
\<close>

fun streamCentralDirectory_loop ::
  "nat \<Rightarrow> BytesSource \<Rightarrow> bytes \<Rightarrow> int \<Rightarrow> (error + stream) option" where
  "streamCentralDirectory_loop 0 source centralDirectory chunkStart0 = None"
| "streamCentralDirectory_loop (Suc fuel) source centralDirectory chunkStart0 =
     (let chunkSize = CENTRAL_DIRECTORY_END_SCAN_CHUNK_SIZE;
          chunkStart = max 0 (chunkStart0 - chunkSize);
          chunkEnd = min (chunkStart + chunkSize - 1) (int (source_length source) - 1)
      in case await (streamBytes source chunkStart chunkEnd) (\<lambda>s. readBytes s None) of
           Inl e \<Rightarrow> Some (Inl e)
         | Inr (bytes, _) \<Rightarrow>
            (let centralDirectory' = concatUint8Array [bytes, centralDirectory] in
             case streamCentralDirectory_scan source bytes centralDirectory' chunkStart
                    (int (length bytes) - 4) of
               Inl e \<Rightarrow> Some (Inl e)
             | Inr (Some s) \<Rightarrow> Some (Inr s)
             | Inr None \<Rightarrow>
                 if chunkStart \<ge> 0
                 then streamCentralDirectory_loop fuel source centralDirectory' chunkStart
                 else Some (Inl (Error ''Central directory not found''))))"

definition streamCentralDirectory :: "nat \<Rightarrow> BytesSource \<Rightarrow> (error + stream) option" where
  "streamCentralDirectory fuel source =
     streamCentralDirectory_loop fuel source [] (int (source_length source))"

text \<open>No four consecutive bytes of \<open>data\<close> are the end-of-central-directory signature.\<close>

definition no_signature :: "bytes \<Rightarrow> bool" where
  "no_signature data \<longleftrightarrow>
     (\<forall>i. i + 4 \<le> length data \<longrightarrow>
        le_nat (take 4 (drop i data)) \<noteq> SIGNATURE_CENTRAL_DIRECTORY_END)"

section \<open>Bounded fetcher\<close>

text \<open>
  Modelled from the spec: the \<^verbatim>\<open>Semaphore\<close> class, imported from \<^verbatim>\<open>@php-wasm/util\<close>, is
  not among the sources. The spec describes it as a concurrency gate with a capacity
  that "serializes excess requests behind a wait queue": \<^verbatim>\<open>acquire\<close> is granted while
  fewer than \<open>concurrency\<close> slots are taken and otherwise makes the caller wait
  (\<open>None\<close>); the function it returns gives the slot back.
\<close>

record semaphore =
  concurrency :: nat
  running :: nat

definition sem_acquire :: "semaphore \<Rightarrow> semaphore option" where
  "sem_acquire s =
     (if running s < concurrency s then Some (s\<lparr>running := running s + 1\<rparr>) else None)"

definition sem_release :: "semaphore \<Rightarrow> semaphore" where
  "sem_release s = s\<lparr>running := running s - 1\<rparr>"

text \<open>\<^verbatim>\<open>const sem = new Semaphore({ concurrency: 10 });\<close>\<close>

definition sem :: semaphore where
  "sem = \<lparr>concurrency = 10, running = 0\<rparr>"

text \<open>
  The two index expressions of \<^verbatim>\<open>requestChunkRange\<close>, \<^verbatim>\<open>zipEntries[0].firstByteAt\<close> and
  \<^verbatim>\<open>zipEntries[zipEntries.length - 1].lastByteAt\<close>: on an empty array both elements are
  \<^verbatim>\<open>undefined\<close> and reading a property of \<^verbatim>\<open>undefined\<close> throws a TypeError.
\<close>

definition chunkRange :: "CentralDirectoryEntry list \<Rightarrow> error + (int \<times> int)" where
  "chunkRange zipEntries =
     (case zipEntries of
        [] \<Rightarrow> Inl TypeError
      | _ \<Rightarrow> Inr (int (firstByteAt (hd zipEntries)), lastByteAt (last zipEntries)))"

text \<open>
  A call of \<^verbatim>\<open>requestChunkRange\<close> waits for the gate (\<open>Acquiring\<close>), then holds a slot
  while its range request \<^verbatim>\<open>source.streamBytes(first, last)\<close> is pending (\<open>Requesting\<close>),
  and has given the slot back once that promise is settled (\<open>Settled\<close>).
\<close>

datatype phase = Acquiring | Requesting int int | Settled

fun requesting :: "phase \<Rightarrow> bool" where
  "requesting (Requesting firstByte lastByte) = True"
| "requesting _ = False"

text \<open>
  The variables of \<^verbatim>\<open>fetchPartitionedEntries\<close>, the calls of \<^verbatim>\<open>requestChunkRange\<close> it
  has started, and the gate. \<open>writableError\<close> records \<^verbatim>\<open>controller.error(e)\<close>.
\<close>

record fetcher =
  isWritableClosed :: bool
  requestsInProgress :: nat
  byteStreams :: "(CentralDirectoryEntry list \<times> stream) list"
  writableError :: "error option"
  calls :: "(CentralDirectoryEntry list \<times> phase) list"
  gate :: semaphore

definition fetcher_init :: fetcher where
  "fetcher_init = \<lparr>isWritableClosed = False, requestsInProgress = 0, byteStreams = [],
     writableError = None, calls = [], gate = sem\<rparr>"

text \<open>
  What can happen to the fetcher, one at a time, in any order the event loop chooses:
  \<^verbatim>\<open>write(zipEntries)\<close> is called; the \<^verbatim>\<open>await sem.acquire()\<close> of call \<open>i\<close> is resumed; the
  range request of call \<open>i\<close> is settled; the writable side is closed.
\<close>

datatype event =
    Write "CentralDirectoryEntry list"
  | Acquired nat
  | Responded nat
  | CloseWritable

text \<open>
  The end of call \<open>i\<close>: \<^verbatim>\<open>finally { release(); }\<close>, then the \<^verbatim>\<open>then\<close>, \<^verbatim>\<open>catch\<close> and
  \<^verbatim>\<open>finally\<close> handlers that \<^verbatim>\<open>write\<close> attached.
\<close>

definition settle ::
  "nat \<Rightarrow> CentralDirectoryEntry list \<Rightarrow> error + stream \<Rightarrow> fetcher \<Rightarrow> fetcher" where
  "settle i zipEntries outcome st =
     (let st' = st\<lparr>gate := sem_release (gate st),
                    calls := (calls st)[i := (zipEntries, Settled)]\<rparr>;
          st'' = (case outcome of
                    Inr byteStream \<Rightarrow>
                      st'\<lparr>byteStreams := byteStreams st' @ [(zipEntries, byteStream)]\<rparr>
                  | Inl e \<Rightarrow> st'\<lparr>writableError := Some e\<rparr>)
      in st''\<lparr>requestsInProgress := requestsInProgress st'' - 1\<rparr>)"

text \<open>\<open>None\<close>: the event cannot happen in this state.\<close>

fun fetcher_step :: "BytesSource \<Rightarrow> event \<Rightarrow> fetcher \<Rightarrow> fetcher option" where
  "fetcher_step source (Write zipEntries) st =
     (if zipEntries = [] then Some st
      else Some (st\<lparr>requestsInProgress := requestsInProgress st + 1,
                    calls := calls st @ [(zipEntries, Acquiring)]\<rparr>))"
| "fetcher_step source (Acquired i) st =
     (if i < length (calls st) \<and> snd (calls st ! i) = Acquiring then
        (case sem_acquire (gate st) of
           None \<Rightarrow> None
         | Some g \<Rightarrow>
             (let zipEntries = fst (calls st ! i); st' = st\<lparr>gate := g\<rparr> in
              case chunkRange zipEntries of
                Inl e \<Rightarrow> Some (settle i zipEntries (Inl e) st')
              | Inr (firstByte, lastByte) \<Rightarrow>
                  Some (st'\<lparr>calls :=
                    (calls st')[i := (zipEntries, Requesting firstByte lastByte)]\<rparr>)))
      else None)"
| "fetcher_step source (Responded i) st =
     (if i < length (calls st) then
        (case calls st ! i of
           (zipEntries, Requesting firstByte lastByte) \<Rightarrow>
             Some (settle i zipEntries (streamBytes source firstByte lastByte) st)
         | _ \<Rightarrow> None)
      else None)"
| "fetcher_step source CloseWritable st = Some (st\<lparr>isWritableClosed := True\<rparr>)"

fun fetcher_run :: "BytesSource \<Rightarrow> event list \<Rightarrow> fetcher \<Rightarrow> fetcher option" where
  "fetcher_run source [] st = Some st"
| "fetcher_run source (ev # evs) st =
     (case fetcher_step source ev st of
        None \<Rightarrow> None
      | Some st' \<Rightarrow> fetcher_run source evs st')"

text \<open>The number of range requests that have been issued and are not settled yet.\<close>

definition outstanding :: "fetcher \<Rightarrow> nat" where
  "outstanding st = length (filter (\<lambda>c. requesting (snd c)) (calls st))"

definition gate_inv :: "fetcher \<Rightarrow> bool" where
  "gate_inv st \<longleftrightarrow>
     concurrency (gate st) = 10 \<and> running (gate st) = outstanding st
     \<and> running (gate st) \<le> 10"

text \<open>
  The archive of the scenario of the specification, written by a standard ZIP tool:
  the stored files \<^verbatim>\<open>a.txt\<close> (10 bytes), \<^verbatim>\<open>dir/\<close> (0 bytes) and \<^verbatim>\<open>dir/b.txt\<close>
  (20 bytes) at the offsets 0, 45 and 79, their central directory records from offset
  138, and the end-of-central-directory record at offset 294, without a comment.
\<close>

definition sample_archive :: bytes where
  "sample_archive =
     [80, 75, 3, 4, 20, 0, 0, 0, 0, 0, 0, 0, 33, 0, 198, 199, 132, 166, 10, 0,
      0, 0, 10, 0, 0, 0, 5, 0, 0, 0, 97, 46, 116, 120, 116, 48, 49, 50, 51, 52,
      53, 54, 55, 56, 57, 80, 75, 3, 4, 20, 0, 0, 0, 0, 0, 0, 0, 33, 0, 0,
      0, 0, 0, 0, 0, 0, 0, 0, 0, 0, 0, 4, 0, 0, 0, 100, 105, 114, 47, 80,
      75, 3, 4, 20, 0, 0, 0, 0, 0, 0, 0, 33, 0, 229, 106, 89, 26, 20, 0, 0,
      0, 20, 0, 0, 0, 9, 0, 0, 0, 100, 105, 114, 47, 98, 46, 116, 120, 116, 97, 98,
      99, 100, 101, 102, 103, 104, 105, 106, 107, 108, 109, 110, 111, 112, 113, 114, 115, 116, 80, 75,
      1, 2, 20, 0, 20, 0, 0, 0, 0, 0, 0, 0, 33, 0, 198, 199, 132, 166, 10, 0,
      0, 0, 10, 0, 0, 0, 5, 0, 0, 0, 0, 0, 0, 0, 0, 0, 0, 0, 128, 1,
      0, 0, 0, 0, 97, 46, 116, 120, 116, 80, 75, 1, 2, 20, 0, 20, 0, 0, 0, 0,
      0, 0, 0, 33, 0, 0, 0, 0, 0, 0, 0, 0, 0, 0, 0, 0, 0, 4, 0, 0,
      0, 0, 0, 0, 0, 0, 0, 0, 0, 128, 1, 45, 0, 0, 0, 100, 105, 114, 47, 80,
      75, 1, 2, 20, 0, 20, 0, 0, 0, 0, 0, 0, 0, 33, 0, 229, 106, 89, 26, 20,
      0, 0, 0, 20, 0, 0, 0, 9, 0, 0, 0, 0, 0, 0, 0, 0, 0, 0, 0, 128,
      1, 79, 0, 0, 0, 100, 105, 114, 47, 98, 46, 116, 120, 116, 80, 75, 5, 6, 0, 0,
      0, 0, 3, 0, 3, 0, 156, 0, 0, 0, 138, 0, 0, 0, 0, 0]"

definition file_a :: FileEntry where
  "file_a = \<lparr>FileEntry.signature = SIGNATURE_FILE, version = 20,
     generalPurpose = 0, compressionMethod = 0, lastModifiedTime = 0,
     lastModifiedDate = 33, crc = 2793719750, compressedSize = 10,
     uncompressedSize = 10, fileNameLength = 5, fileName = ''a.txt'',
     isDirectory = False, extraLength = 0, extra = [],
     body = [48, 49, 50, 51, 52, 53, 54, 55, 56, 57]\<rparr>"

definition file_dir :: FileEntry where
  "file_dir = \<lparr>FileEntry.signature = SIGNATURE_FILE, version = 20,
     generalPurpose = 0, compressionMethod = 0, lastModifiedTime = 0,
     lastModifiedDate = 33, crc = 0, compressedSize = 0,
     uncompressedSize = 0, fileNameLength = 4, fileName = ''dir/'',
     isDirectory = True, extraLength = 0, extra = [],
     body = []\<rparr>"

definition file_b :: FileEntry where
  "file_b = \<lparr>FileEntry.signature = SIGNATURE_FILE, version = 20,
     generalPurpose = 0, compressionMethod = 0, lastModifiedTime = 0,
     lastModifiedDate = 33, crc = 442067685, compressedSize = 20,
     uncompressedSize = 20, fileNameLength = 9, fileName = ''dir/b.txt'',
     isDirectory = False, extraLength = 0, extra = [],
     body = [97, 98, 99, 100, 101, 102, 103, 104, 105, 106, 107, 108, 109, 110, 111, 112, 113, 114, 115, 116]\<rparr>"

definition entry_a :: CentralDirectoryEntry where
  "entry_a = \<lparr>signature = SIGNATURE_CENTRAL_DIRECTORY_START,
     versionCreated = 20, versionNeeded = 20, generalPurpose = 0,
     compressionMethod = 0, lastModifiedTime = 0, lastModifiedDate = 33,
     crc = 2793719750, compressedSize = 10, uncompressedSize = 10,
     fileNameLength = 5, extraLength = 0, fileCommentLength = 0, diskNumber = 0,
     internalAttributes = 0, externalAttributes = 25165824, firstByteAt = 0,
     lastByteAt = 46, fileName = ''a.txt'', extra = [], fileComment = [],
     isDirectory = False\<rparr>"

definition entry_dir :: CentralDirectoryEntry where
  "entry_dir = \<lparr>signature = SIGNATURE_CENTRAL_DIRECTORY_START,
     versionCreated = 20, versionNeeded = 20, generalPurpose = 0,
     compressionMethod = 0, lastModifiedTime = 0, lastModifiedDate = 33,
     crc = 0, compressedSize = 0, uncompressedSize = 0,
     fileNameLength = 4, extraLength = 0, fileCommentLength = 0, diskNumber = 0,
     internalAttributes = 0, externalAttributes = 25165824, firstByteAt = 45,
     lastByteAt = 80, fileName = ''dir/'', extra = [], fileComment = [],
     isDirectory = True\<rparr>"

definition entry_b :: CentralDirectoryEntry where
  "entry_b = \<lparr>signature = SIGNATURE_CENTRAL_DIRECTORY_START,
     versionCreated = 20, versionNeeded = 20, generalPurpose = 0,
     compressionMethod = 0, lastModifiedTime = 0, lastModifiedDate = 33,
     crc = 442067685, compressedSize = 20, uncompressedSize = 20,
     fileNameLength = 9, extraLength = 0, fileCommentLength = 0, diskNumber = 0,
     internalAttributes = 0, externalAttributes = 25165824, firstByteAt = 79,
     lastByteAt = 139, fileName = ''dir/b.txt'', extra = [], fileComment = [],
     isDirectory = False\<rparr>"

definition sample_end :: CentralDirectoryEndEntry where
  "sample_end = \<lparr>CentralDirectoryEndEntry.signature = SIGNATURE_CENTRAL_DIRECTORY_END,
     numberOfDisks = 0, centralDirectoryStartDisk = 0,
     numberCentralDirectoryRecordsOnThisDisk = 3, numberCentralDirectoryRecords = 3,
     centralDirectorySize = 156, centralDirectoryOffset = 138, commentLength = 0,
     comment = []\<rparr>"












text \<open>
  The records of the straddling archive: the stored file \<^verbatim>\<open>a\<close> of 51110 zero bytes, its
  central directory record at offset 51141, and the end-of-central-directory record at
  offset 51188 with a comment of 51190 spaces.
\<close>

definition straddling_file :: FileEntry where
  "straddling_file = \<lparr>FileEntry.signature = SIGNATURE_FILE, version = 20,
     generalPurpose = 0, compressionMethod = 0, lastModifiedTime = 0,
     lastModifiedDate = 33, crc = 2336684458, compressedSize = 51110,
     uncompressedSize = 51110, fileNameLength = 1, fileName = ''a'',
     isDirectory = False, extraLength = 0, extra = [],
     body = replicate 51110 0\<rparr>"

definition straddling_entry :: CentralDirectoryEntry where
  "straddling_entry = \<lparr>signature = SIGNATURE_CENTRAL_DIRECTORY_START,
     versionCreated = 20, versionNeeded = 20, generalPurpose = 0,
     compressionMethod = 0, lastModifiedTime = 0, lastModifiedDate = 33,
     crc = 2336684458, compressedSize = 51110, uncompressedSize = 51110,
     fileNameLength = 1, extraLength = 0, fileCommentLength = 0, diskNumber = 0,
     internalAttributes = 0, externalAttributes = 25165824, firstByteAt = 0,
     lastByteAt = 51142, fileName = ''a'', extra = [], fileComment = [],
     isDirectory = False\<rparr>"

definition straddling_end :: CentralDirectoryEndEntry where
  "straddling_end = \<lparr>CentralDirectoryEndEntry.signature = SIGNATURE_CENTRAL_DIRECTORY_END,
     numberOfDisks = 0, centralDirectoryStartDisk = 0,
     numberCentralDirectoryRecordsOnThisDisk = 1, numberCentralDirectoryRecords = 1,
     centralDirectorySize = 47, centralDirectoryOffset = 51141, commentLength = 51190,
     comment = replicate 51190 (CHR '' '')\<rparr>"

text \<open>
  A valid archive of 10529 bytes: the stored files \<^verbatim>\<open>a\<close>, \<^verbatim>\<open>b\<close> and \<^verbatim>\<open>ab\<close> of one byte
  each at the offsets 0, 32 and 64, and their central directory records from offset 97,
  the first with a file comment of 10239 spaces and the second with a file comment of
  29 bytes. \<open>merged_cut\<close> is the file entry that the decoder makes of the first 31 bytes
  of the local record of \<^verbatim>\<open>ab\<close>.
\<close>

definition merged_archive :: bytes where
  "merged_archive =
     [80, 75, 3, 4, 20, 0, 0, 0, 0, 0, 0, 0, 33, 0, 131, 22, 220, 140, 1, 0,
      0, 0, 1, 0, 0, 0, 1, 0, 0, 0, 97, 120, 80, 75, 3, 4, 20, 0, 0, 0,
      0, 0, 0, 0, 33, 0, 175, 119, 210, 98, 1, 0, 0, 0, 1, 0, 0, 0, 1, 0,
      0, 0, 98, 122, 80, 75, 3, 4, 20, 0, 0, 0, 0, 0, 0, 0, 33, 0, 21, 38,
      219, 251, 1, 0, 0, 0, 1, 0, 0, 0, 2, 0, 0, 0, 97, 98, 121, 80, 75, 1,
      2, 20, 0, 20, 0, 0, 0, 0, 0, 0, 0, 33, 0, 131, 22, 220, 140, 1, 0, 0,
      0, 1, 0, 0, 0, 1, 0, 0, 0, 255, 39, 0, 0, 0, 0, 0, 0, 128, 1, 0,
      0, 0, 0, 97]
     @ replicate 10239 32
     @ [80, 75, 1, 2, 20, 0, 20, 0, 0, 0, 0, 0, 0, 0, 33, 0, 175, 119, 210, 98,
        1, 0, 0, 0, 1, 0, 0, 0, 1, 0, 0, 0, 29, 0, 0, 0, 0, 0, 0, 0,
        128, 1, 32, 0, 0, 0, 98, 116, 119, 101, 110, 116, 121, 45, 110, 105, 110, 101, 32, 98,
        121, 116, 101, 115, 32, 111, 102, 32, 99, 111, 109, 109, 101, 110, 116, 33, 80, 75, 1, 2,
        20, 0, 20, 0, 0, 0, 0, 0, 0, 0, 33, 0, 21, 38, 219, 251, 1, 0, 0, 0,
        1, 0, 0, 0, 2, 0, 0, 0, 0, 0, 0, 0, 0, 0, 0, 0, 128, 1, 64, 0,
        0, 0, 97, 98, 80, 75, 5, 6, 0, 0, 0, 0, 3, 0, 3, 0, 170, 40, 0, 0,
        97, 0, 0, 0, 0, 0]"

definition merged_a :: FileEntry where
  "merged_a = \<lparr>FileEntry.signature = SIGNATURE_FILE, version = 20,
     generalPurpose = 0, compressionMethod = 0, lastModifiedTime = 0,
     lastModifiedDate = 33, crc = 2363233923, compressedSize = 1,
     uncompressedSize = 1, fileNameLength = 1, fileName = ''a'',
     isDirectory = False, extraLength = 0, extra = [],
     body = [120]\<rparr>"

definition merged_b :: FileEntry where
  "merged_b = \<lparr>FileEntry.signature = SIGNATURE_FILE, version = 20,
     generalPurpose = 0, compressionMethod = 0, lastModifiedTime = 0,
     lastModifiedDate = 33, crc = 1657960367, compressedSize = 1,
     uncompressedSize = 1, fileNameLength = 1, fileName = ''b'',
     isDirectory = False, extraLength = 0, extra = [],
     body = [122]\<rparr>"

definition merged_ab :: FileEntry where
  "merged_ab = \<lparr>FileEntry.signature = SIGNATURE_FILE, version = 20,
     generalPurpose = 0, compressionMethod = 0, lastModifiedTime = 0,
     lastModifiedDate = 33, crc = 4225443349, compressedSize = 1,
     uncompressedSize = 1, fileNameLength = 2, fileName = ''ab'',
     isDirectory = False, extraLength = 0, extra = [],
     body = [121]\<rparr>"

definition merged_cut :: FileEntry where
  "merged_cut = \<lparr>FileEntry.signature = SIGNATURE_FILE, version = 20,
     generalPurpose = 0, compressionMethod = 0, lastModifiedTime = 0,
     lastModifiedDate = 33, crc = 4225443349, compressedSize = 1,
     uncompressedSize = 1, fileNameLength = 2, fileName = ''a'',
     isDirectory = False, extraLength = 0, extra = [],
     body = []\<rparr>"

definition merged_entry_a :: CentralDirectoryEntry where
  "merged_entry_a = \<lparr>signature = SIGNATURE_CENTRAL_DIRECTORY_START,
     versionCreated = 20, versionNeeded = 20, generalPurpose = 0,
     compressionMethod = 0, lastModifiedTime = 0, lastModifiedDate = 33,
     crc = 2363233923, compressedSize = 1, uncompressedSize = 1,
     fileNameLength = 1, extraLength = 0, fileCommentLength = 10239, diskNumber = 0,
     internalAttributes = 0, externalAttributes = 25165824, firstByteAt = 0,
     lastByteAt = 10272, fileName = ''a'', extra = [],
     fileComment = replicate 10239 (CHR '' ''), isDirectory = False\<rparr>"

definition merged_entry_b :: CentralDirectoryEntry where
  "merged_entry_b = \<lparr>signature = SIGNATURE_CENTRAL_DIRECTORY_START,
     versionCreated = 20, versionNeeded = 20, generalPurpose = 0,
     compressionMethod = 0, lastModifiedTime = 0, lastModifiedDate = 33,
     crc = 1657960367, compressedSize = 1, uncompressedSize = 1,
     fileNameLength = 1, extraLength = 0, fileCommentLength = 29, diskNumber = 0,
     internalAttributes = 0, externalAttributes = 25165824, firstByteAt = 32,
     lastByteAt = 94, fileName = ''b'', extra = [],
     fileComment = ''twenty-nine bytes of comment!'', isDirectory = False\<rparr>"

definition merged_entry_ab :: CentralDirectoryEntry where
  "merged_entry_ab = \<lparr>signature = SIGNATURE_CENTRAL_DIRECTORY_START,
     versionCreated = 20, versionNeeded = 20, generalPurpose = 0,
     compressionMethod = 0, lastModifiedTime = 0, lastModifiedDate = 33,
     crc = 4225443349, compressedSize = 1, uncompressedSize = 1,
     fileNameLength = 2, extraLength = 0, fileCommentLength = 0, diskNumber = 0,
     internalAttributes = 0, externalAttributes = 25165824, firstByteAt = 64,
     lastByteAt = 98, fileName = ''ab'', extra = [],
     fileComment = [], isDirectory = False\<rparr>"


section \<open>Example inputs\<close>

text \<open>
  A platform for the examples: every byte decodes to the character with its code, and
  inflation is not available (the example archives hold stored entries only).
\<close>

definition ascii_platform :: platform where
  "ascii_platform =
     \<lparr>textDecoder = map (\<lambda>b. char_of (unat b)),
      inflateRaw = (\<lambda>compressed. Inl (Error ''inflate is not available''))\<rparr>"

text \<open>
  The local file record and the central directory record of an archive that holds the
  single stored file \<^verbatim>\<open>a\<close> with content \<^verbatim>\<open>x\<close>; the end-of-central-directory record
  that should follow is missing, as after an interrupted download.
\<close>

definition truncated_archive :: bytes where
  "truncated_archive =
     [80, 75, 3, 4, 20, 0, 0, 0, 0, 0, 0, 0, 33, 0, 131, 22, 220, 140, 1, 0, 0, 0,
      1, 0, 0, 0, 1, 0, 0, 0, 97, 120,
      80, 75, 1, 2, 20, 0, 20, 0, 0, 0, 0, 0, 0, 0, 33, 0, 131, 22, 220, 140, 1, 0, 0, 0,
      1, 0, 0, 0, 1, 0, 0, 0, 0, 0, 0, 0, 0, 0, 0, 0, 128, 1, 0, 0, 0, 0, 97]"

text \<open>
  Eleven non-empty partitions are written; the first ten calls of
  \<^verbatim>\<open>requestChunkRange\<close> pass the gate.
\<close>

definition eleven_partitions :: "event list" where
  "eleven_partitions =
     [Write [entry_a], Write [entry_a], Write [entry_a], Write [entry_a], Write [entry_a],
      Write [entry_a], Write [entry_a], Write [entry_a], Write [entry_a], Write [entry_a],
      Write [entry_a],
      Acquired 0, Acquired 1, Acquired 2, Acquired 3, Acquired 4,
      Acquired 5, Acquired 6, Acquired 7, Acquired 8, Acquired 9]"

text \<open>
  A valid archive of 102400 bytes: the stored file \<^verbatim>\<open>a\<close> (51110 zero bytes), its
  central directory record, and an end-of-central-directory record with an archive
  comment of 51190 spaces. The record starts at offset 51188, twelve bytes before the
  boundary between the last scan chunk and the one before it.
\<close>

definition straddling_archive :: bytes where
  "straddling_archive =
     [80, 75, 3, 4, 20, 0, 0, 0, 0, 0, 0, 0, 33, 0, 170, 249, 70, 139, 166, 199, 0, 0,
      166, 199, 0, 0, 1, 0, 0, 0, 97]
     @ replicate 51110 0
     @ [80, 75, 1, 2, 20, 0, 20, 0, 0, 0, 0, 0, 0, 0, 33, 0, 170, 249, 70, 139,
        166, 199, 0, 0, 166, 199, 0, 0, 1, 0, 0, 0, 0, 0, 0, 0, 0, 0, 0, 0, 128, 1,
        0, 0, 0, 0, 97]
     @ [80, 75, 5, 6, 0, 0, 0, 0, 1, 0, 1, 0, 47, 0, 0, 0, 197, 199, 0, 0, 246, 199]
     @ replicate 51190 32"

section \<open>Properties of the byte cursor\<close>

lemma limitBytes_pull_concat:
  "limitBytes_pull n off s = (vs, s') \<Longrightarrow>
     concat vs = take (n - off) (concat s) \<and> concat s' = drop (n - off) (concat s)"
proof (induction n off s arbitrary: vs s' rule: limitBytes_pull.induct)
  case (1 bytes offset s)
  show ?case
  proof (cases s)
    case Nil
    with "1.prems" show ?thesis by simp
  next
    case (Cons c cs)
    show ?thesis
    proof (cases "offset + length (take (bytes - offset) c) \<ge> bytes")
      case True
      with "1.prems" Cons show ?thesis by (auto split: if_splits)
    next
      case False
      then have short: "length c < bytes - offset" by auto
      obtain ws t where rec: "limitBytes_pull bytes (offset + length c) cs = (ws, t)"
        by (cases "limitBytes_pull bytes (offset + length c) cs")
      with "1.prems" Cons short have vs: "vs = c # ws" and s': "s' = t"
        by (auto split: if_splits)
      from "1.IH"[of "Some c" cs c ws t] Cons short rec
      have "concat ws = take (bytes - (offset + length c)) (concat cs)
            \<and> concat t = drop (bytes - (offset + length c)) (concat cs)"
        by auto
      with vs s' Cons short show ?thesis by auto
    qed
  qed
qed

lemma limitBytes_concat:
  "limitBytes s n = (vs, s') \<Longrightarrow>
     concat vs = take n (concat s) \<and> concat s' = drop n (concat s)"
  using limitBytes_pull_concat[of n 0 s vs s']
  by (auto simp: limitBytes_def split: if_splits)

lemma concatNBytes_transform_fits:
  "offset + length (concat chunks) \<le> length buffer \<Longrightarrow>
     concatNBytes_transform buffer offset chunks
       = Inr (take offset buffer @ concat chunks
              @ drop (offset + length (concat chunks)) buffer)"
proof (induction chunks arbitrary: buffer offset)
  case Nil
  then show ?case by simp
next
  case (Cons c cs)
  let ?b = "take offset buffer @ c @ drop (offset + length c) buffer"
  have len: "length ?b = length buffer" using Cons.prems by simp
  have "concatNBytes_transform buffer offset (c # cs)
          = concatNBytes_transform ?b (offset + length c) cs"
    using Cons.prems by (simp add: view_set_def)
  also have "\<dots> = Inr (take (offset + length c) ?b @ concat cs
                      @ drop (offset + length c + length (concat cs)) ?b)"
    using Cons.prems len by (intro Cons.IH) simp
  also have "take (offset + length c) ?b = take offset buffer @ c"
    using Cons.prems by simp
  also have "drop (offset + length c + length (concat cs)) ?b
               = drop (offset + length (concat (c # cs))) buffer"
    using Cons.prems by (simp add: add.commute add.left_commute)
  finally show ?case by simp
qed

lemma concatNBytes_fits:
  "length (concat chunks) \<le> n \<Longrightarrow>
     concatNBytes n chunks = Inr (concat chunks @ replicate (n - length (concat chunks)) 0)"
  by (simp add: concatNBytes_def concatNBytes_transform_fits)

lemma readBytes_Some:
  "readBytes stream (Some n)
     = Inr (take n (concat stream) @ replicate (n - length (concat stream)) 0,
            snd (limitBytes stream n))"
proof -
  obtain vs s' where lb: "limitBytes stream n = (vs, s')"
    by (cases "limitBytes stream n")
  from limitBytes_concat[OF lb] have vs: "concat vs = take n (concat stream)" by simp
  then have "concatNBytes n vs
               = Inr (take n (concat stream) @ replicate (n - length (concat stream)) 0)"
    by (simp add: concatNBytes_fits min_def)
  with lb show ?thesis by (simp add: readBytes_def)
qed

lemma limitBytes_rest:
  "concat (snd (limitBytes stream n)) = drop n (concat stream)"
  using limitBytes_concat[of stream n] by (cases "limitBytes stream n") simp

section \<open>The records as functions of the stream content\<close>

text \<open>
  What a decoder returns depends only on the bytes that the stream still holds, not on
  how they are cut into chunks. The functions below describe each record as a function
  of that content; \<open>content\<close> forgets the chunking of the stream a decoder leaves
  behind.
\<close>

definition zero_padded :: "nat \<Rightarrow> bytes \<Rightarrow> bytes" where
  "zero_padded n d = take n d @ replicate (n - length d) 0"

definition decodeText :: "platform \<Rightarrow> bytes \<Rightarrow> string" where
  "decodeText pl bs = (if bs = [] then [] else textDecoder pl bs)"

definition content :: "error + ('a \<times> stream) \<Rightarrow> error + ('a \<times> bytes)" where
  "content r = map_sum id (map_prod id concat) r"

lemma content_simps [simp]:
  "content (Inl e) = Inl e" "content (Inr (v, s)) = Inr (v, concat s)"
  by (simp_all add: content_def)

lemma content_await: "content (await p k) = await p (\<lambda>v. content (k v))"
  by (cases p) simp_all

lemma content_if: "content (if b then x else y) = (if b then content x else content y)"
  by simp

lemma length_zero_padded [simp]: "length (zero_padded n d) = n"
  by (simp add: zero_padded_def)

lemma readBytes_padded:
  "readBytes s (Some n) = Inr (zero_padded n (concat s), snd (limitBytes s n))"
  by (simp add: readBytes_Some zero_padded_def)

lemma concat_fst_limitBytes: "concat (fst (limitBytes s n)) = take n (concat s)"
  using limitBytes_concat[of s n] by (cases "limitBytes s n") simp

lemma textDecoderStream_decodeText:
  "textDecoderStream pl chunks = decodeText pl (concat chunks)"
  by (simp only: textDecoderStream_def decodeText_def)

lemma readString_content:
  "readString pl s n = (decodeText pl (take n (concat s)), snd (limitBytes s n))"
proof -
  obtain vs s' where lb: "limitBytes s n = (vs, s')" by (cases "limitBytes s n")
  from limitBytes_concat[OF lb] have "concat vs = take n (concat s)" by simp
  with lb show ?thesis
    by (simp add: readString_def textDecoderStream_decodeText)
qed

lemma getUint16_inside:
  "0 \<le> off \<Longrightarrow> off + 2 \<le> int (length v) \<Longrightarrow>
   getUint16 v off = Inr (le_nat (take 2 (drop (nat off) v)))"
  by (simp add: getUint16_def)

lemma getUint32_inside:
  "0 \<le> off \<Longrightarrow> off + 4 \<le> int (length v) \<Longrightarrow>
   getUint32 v off = Inr (le_nat (take 4 (drop (nat off) v)))"
  by (simp add: getUint32_def)

definition u16 :: "bytes \<Rightarrow> nat \<Rightarrow> nat" where
  "u16 v off = le_nat (take 2 (drop off v))"

definition u32 :: "bytes \<Rightarrow> nat \<Rightarrow> nat" where
  "u32 v off = le_nat (take 4 (drop off v))"

text \<open>
  The local file record whose 26 header bytes start the content \<open>d\<close>: the bytes of
  its body, the number of bytes it takes, and the entry with a given decoded body.
\<close>

definition file_record_size :: "bytes \<Rightarrow> nat" where
  "file_record_size d =
     (let h = zero_padded 26 d in 26 + u16 h 22 + u16 h 24 + u32 h 14)"

definition file_raw :: "bytes \<Rightarrow> bytes" where
  "file_raw d =
     (let h = zero_padded 26 d in take (u32 h 14) (drop (26 + u16 h 22 + u16 h 24) d))"

definition file_entry :: "platform \<Rightarrow> bytes \<Rightarrow> bytes \<Rightarrow> FileEntry" where
  "file_entry pl d body' =
     (let h = zero_padded 26 d; n = u16 h 22; x = u16 h 24 in
      \<lparr>FileEntry.signature = SIGNATURE_FILE, version = u32 h 0,
       generalPurpose = u16 h 2, compressionMethod = u16 h 4,
       lastModifiedTime = u16 h 6, lastModifiedDate = u16 h 8,
       crc = u32 h 10, compressedSize = u32 h 14,
       uncompressedSize = u32 h 18, fileNameLength = n,
       fileName = decodeText pl (take n (drop 26 d)),
       isDirectory = endsWith (decodeText pl (take n (drop 26 d))) ''/'',
       extraLength = x, extra = zero_padded x (drop (26 + n) d),
       body = body'\<rparr>)"

definition file_record :: "platform \<Rightarrow> bytes \<Rightarrow> error + (FileEntry option \<times> bytes)" where
  "file_record pl d =
     await (if u16 (zero_padded 26 d) 4 = 8 then inflateRaw pl (file_raw d)
            else Inr (file_raw d))
       (\<lambda>body'. Inr (Some (file_entry pl d body'), drop (file_record_size d) d))"

lemma readFileEntry_True_content:
  "content (readFileEntry pl s True) = file_record pl (concat s)"
  unfolding readFileEntry_def file_record_def file_entry_def file_raw_def
    file_record_size_def
  by (simp add: readBytes_padded readString_content getUint16_inside getUint32_inside
      case_prod_beta concat_fst_limitBytes limitBytes_rest content_await Let_def
      u16_def u32_def concatBytesStream_def add.commute add.left_commute
      cong: if_cong)

text \<open>The central directory record whose 42 header bytes start the content \<open>d\<close>.\<close>

definition central_record_size :: "bytes \<Rightarrow> nat" where
  "central_record_size d =
     (let h = zero_padded 42 d in 42 + u16 h 24 + u16 h 26 + u16 h 28)"

definition central_entry :: "platform \<Rightarrow> bytes \<Rightarrow> CentralDirectoryEntry" where
  "central_entry pl d =
     (let h = zero_padded 42 d; n = u16 h 24; x = u16 h 26; k = u16 h 28 in
      \<lparr>signature = SIGNATURE_CENTRAL_DIRECTORY_START,
       versionCreated = u16 h 0, versionNeeded = u16 h 2,
       generalPurpose = u16 h 4, compressionMethod = u16 h 6,
       lastModifiedTime = u16 h 8, lastModifiedDate = u16 h 10,
       crc = u32 h 12, compressedSize = u32 h 16,
       uncompressedSize = u32 h 20, fileNameLength = n,
       extraLength = x, fileCommentLength = k,
       diskNumber = u16 h 30, internalAttributes = u16 h 32,
       externalAttributes = u32 h 34, firstByteAt = u32 h 38,
       lastByteAt = int (u32 h 38) + int FILE_HEADER_SIZE + int n
         + int k + int x + int (u32 h 16) - 1,
       fileName = decodeText pl (take n (drop 42 d)),
       extra = zero_padded x (drop (42 + n) d),
       fileComment = decodeText pl (take k (drop (42 + n + x) d)),
       isDirectory = endsWith (decodeText pl (take n (drop 42 d))) ''/''\<rparr>)"

lemma readCentralDirectory_True_content:
  "content (readCentralDirectory pl s True)
     = Inr (Some (central_entry pl (concat s)),
            drop (central_record_size (concat s)) (concat s))"
  unfolding readCentralDirectory_def central_entry_def central_record_size_def
  by (simp add: readBytes_padded readString_content getUint16_inside getUint32_inside
      case_prod_beta limitBytes_rest content_await Let_def
      u16_def u32_def add.commute add.left_commute)

text \<open>The end-of-central-directory record whose 18 header bytes start \<open>d\<close>.\<close>

definition end_record_size :: "bytes \<Rightarrow> nat" where
  "end_record_size d = 18 + u16 (zero_padded 18 d) 16"

definition end_entry :: "platform \<Rightarrow> bytes \<Rightarrow> CentralDirectoryEndEntry" where
  "end_entry pl d =
     (let h = zero_padded 18 d; k = u16 h 16 in
      \<lparr>CentralDirectoryEndEntry.signature = SIGNATURE_CENTRAL_DIRECTORY_END,
       numberOfDisks = u16 h 0, centralDirectoryStartDisk = u16 h 2,
       numberCentralDirectoryRecordsOnThisDisk = u16 h 4,
       numberCentralDirectoryRecords = u16 h 6,
       centralDirectorySize = u32 h 8, centralDirectoryOffset = u32 h 12,
       commentLength = k, comment = decodeText pl (take k (drop 18 d))\<rparr>)"

lemma readEndCentralDirectory_True_content:
  "content (readEndCentralDirectory pl s True)
     = Inr (Some (end_entry pl (concat s)), drop (end_record_size (concat s)) (concat s))"
  unfolding readEndCentralDirectory_def end_entry_def end_record_size_def
  by (simp add: readBytes_padded readString_content getUint16_inside getUint32_inside
      case_prod_beta limitBytes_rest content_await Let_def
      u16_def u32_def add.commute add.left_commute)

definition signature_at :: "bytes \<Rightarrow> nat" where
  "signature_at d = u32 (zero_padded 4 d) 0"

lemma readSignature_eq:
  "readSignature s = Inr (signature_at (concat s), snd (limitBytes s 4))"
  by (simp add: readSignature_def readBytes_padded getUint32_inside signature_at_def u32_def)

lemma readFileEntry_False:
  "readFileEntry pl s False =
     (if signature_at (concat s) \<noteq> SIGNATURE_FILE then Inr (None, snd (limitBytes s 4))
      else readFileEntry pl (snd (limitBytes s 4)) True)"
  by (simp add: readFileEntry_def readSignature_eq)

lemma readCentralDirectory_False:
  "readCentralDirectory pl s False =
     (if signature_at (concat s) \<noteq> SIGNATURE_CENTRAL_DIRECTORY_START
      then Inr (None, snd (limitBytes s 4))
      else readCentralDirectory pl (snd (limitBytes s 4)) True)"
  by (simp add: readCentralDirectory_def readSignature_eq)

lemma readFileEntry_False_content:
  "content (readFileEntry pl s False) =
     (if signature_at (concat s) \<noteq> SIGNATURE_FILE then Inr (None, drop 4 (concat s))
      else file_record pl (drop 4 (concat s)))"
  by (simp add: readFileEntry_False readFileEntry_True_content limitBytes_rest)

lemma readCentralDirectory_False_content:
  "content (readCentralDirectory pl s False) =
     (if signature_at (concat s) \<noteq> SIGNATURE_CENTRAL_DIRECTORY_START
      then Inr (None, drop 4 (concat s))
      else Inr (Some (central_entry pl (drop 4 (concat s))),
                drop (central_record_size (drop 4 (concat s))) (drop 4 (concat s))))"
  by (simp add: readCentralDirectory_False readCentralDirectory_True_content limitBytes_rest)

lemma readNextEntry_eq:
  "readNextEntry pl s =
     (let g = signature_at (concat s); s0 = snd (limitBytes s 4) in
      if g = SIGNATURE_FILE then
        await (readFileEntry pl s0 True) (\<lambda>(e, s'). Inr (map_option File e, s'))
      else if g = SIGNATURE_CENTRAL_DIRECTORY_START then
        await (readCentralDirectory pl s0 True)
          (\<lambda>(e, s'). Inr (map_option CentralDirectory e, s'))
      else if g = SIGNATURE_CENTRAL_DIRECTORY_END then
        await (readEndCentralDirectory pl s0 True)
          (\<lambda>(e, s'). Inr (map_option CentralDirectoryEnd e, s'))
      else Inr (None, s0))"
  by (simp add: readNextEntry_def readSignature_eq Let_def)

text \<open>Every record that is decoded takes bytes away from the stream.\<close>

lemma le_nat_zeros: "le_nat (replicate n 0) = 0"
  by (induction n) (simp_all add: le_nat_def)

lemma signature_at_Nil: "signature_at [] = 0"
  by (simp add: signature_at_def u32_def zero_padded_def le_nat_zeros)

lemma after_signature:
  "signature_at d \<noteq> 0 \<Longrightarrow> length (drop 4 d) < length d"
  by (cases d) (simp_all add: signature_at_Nil)

lemma file_record_Inr:
  assumes "file_record pl d = Inr (r, d')"
  shows "d' = drop (file_record_size d) d \<and> (\<exists>b. r = Some (file_entry pl d b))"
proof -
  let ?p = "if u16 (zero_padded 26 d) 4 = 8 then inflateRaw pl (file_raw d)
            else Inr (file_raw d)"
  from assms obtain b where "?p = Inr b"
    unfolding file_record_def by (cases ?p) simp_all
  with assms show ?thesis unfolding file_record_def by auto
qed

lemma readFileEntry_True_shorter:
  assumes "readFileEntry pl s True = Inr (r, s')"
  shows "length (concat s') \<le> length (concat s)"
proof -
  from assms have "file_record pl (concat s) = Inr (r, concat s')"
    using readFileEntry_True_content[of pl s] by simp
  from file_record_Inr[OF this] show ?thesis by simp
qed

lemma readCentralDirectory_True_shorter:
  assumes "readCentralDirectory pl s True = Inr (r, s')"
  shows "length (concat s') \<le> length (concat s)"
  using readCentralDirectory_True_content[of pl s] assms by simp

lemma readEndCentralDirectory_True_shorter:
  assumes "readEndCentralDirectory pl s True = Inr (r, s')"
  shows "length (concat s') \<le> length (concat s)"
  using readEndCentralDirectory_True_content[of pl s] assms by simp

lemma readFileEntry_False_shorter:
  assumes "readFileEntry pl s False = Inr (Some e, s')"
  shows "length (concat s') < length (concat s)"
proof -
  from assms have g: "signature_at (concat s) = SIGNATURE_FILE"
    and t: "readFileEntry pl (snd (limitBytes s 4)) True = Inr (Some e, s')"
    by (auto simp: readFileEntry_False split: if_splits)
  from g have "length (drop 4 (concat s)) < length (concat s)"
    by (intro after_signature) (simp add: SIGNATURE_FILE_def)
  with readFileEntry_True_shorter[OF t] show ?thesis by (simp add: limitBytes_rest)
qed

lemma readCentralDirectory_False_shorter:
  assumes "readCentralDirectory pl s False = Inr (Some e, s')"
  shows "length (concat s') < length (concat s)"
proof -
  from assms have g: "signature_at (concat s) = SIGNATURE_CENTRAL_DIRECTORY_START"
    and t: "readCentralDirectory pl (snd (limitBytes s 4)) True = Inr (Some e, s')"
    by (auto simp: readCentralDirectory_False split: if_splits)
  from g have "length (drop 4 (concat s)) < length (concat s)"
    by (intro after_signature) (simp add: SIGNATURE_CENTRAL_DIRECTORY_START_def)
  with readCentralDirectory_True_shorter[OF t] show ?thesis by (simp add: limitBytes_rest)
qed

lemma readNextEntry_shorter:
  assumes "readNextEntry pl s = Inr (Some e, s')"
  shows "length (concat s') < length (concat s)"
proof -
  let ?g = "signature_at (concat s)" and ?s0 = "snd (limitBytes s 4)"
  have cases3: "?g = SIGNATURE_FILE \<or> ?g = SIGNATURE_CENTRAL_DIRECTORY_START
                \<or> ?g = SIGNATURE_CENTRAL_DIRECTORY_END"
    using assms unfolding readNextEntry_eq Let_def by (auto split: if_splits)
  then have "?g \<noteq> 0"
    by (auto simp: SIGNATURE_FILE_def SIGNATURE_CENTRAL_DIRECTORY_START_def
        SIGNATURE_CENTRAL_DIRECTORY_END_def)
  then have "length (drop 4 (concat s)) < length (concat s)"
    by (rule after_signature)
  then have a: "length (concat ?s0) < length (concat s)"
    by (simp add: limitBytes_rest)
  have "length (concat s') \<le> length (concat ?s0)"
  proof -
    consider (f) r where "readFileEntry pl ?s0 True = Inr (r, s')"
      | (c) r where "readCentralDirectory pl ?s0 True = Inr (r, s')"
      | (e) r where "readEndCentralDirectory pl ?s0 True = Inr (r, s')"
      using assms cases3 unfolding readNextEntry_eq Let_def
      by (auto simp: await_def split: if_splits sum.splits)
    then show ?thesis
      using readFileEntry_True_shorter readCentralDirectory_True_shorter
        readEndCentralDirectory_True_shorter by cases blast+
  qed
  with a show ?thesis by simp
qed

section \<open>The two pipelines\<close>

text \<open>
  Every entry that \<^verbatim>\<open>zipEntries(stream)\<close> enqueues until it closes, for a consumer that
  reads the sequence to its end; the left summand is a sequence that ends in an error.
\<close>

function zipEntries_run :: "platform \<Rightarrow> stream \<Rightarrow> error + ZipEntry list" where
  "zipEntries_run pl stream =
     await (zipEntries_pull pl stream) (\<lambda>(p, stream').
       case p of
         Close \<Rightarrow> Inr []
       | Enqueue e \<Rightarrow> await (zipEntries_run pl stream') (\<lambda>es. Inr (e # es)))"
  by pat_completeness auto
termination
proof (relation "measure (\<lambda>(pl, stream). length (concat stream))", goal_cases)
  case 1
  then show ?case by simp
next
  case (2 pl stream v p stream' e)
  then have "readNextEntry pl stream = Inr (Some e, stream')"
    by (auto simp: zipEntries_pull_def await_def split: sum.splits option.splits)
  from readNextEntry_shorter[OF this] show ?case by simp
qed

declare zipEntries_run.simps [simp del]

text \<open>
  \<^verbatim>\<open>readEntireZip\<close>: the entries whose signature is that of a local file record, taken
  as file entries, then those that the predicate keeps.
\<close>

definition as_file :: "ZipEntry \<Rightarrow> FileEntry option" where
  "as_file e = (case e of File f \<Rightarrow> Some f | _ \<Rightarrow> None)"

definition readEntireZip ::
  "platform \<Rightarrow> stream \<Rightarrow> (FileEntry \<Rightarrow> bool) \<Rightarrow> error + FileEntry list" where
  "readEntireZip pl stream keep =
     await (zipEntries_run pl stream) (\<lambda>entries.
       Inr (filterStream keep
              (List.map_filter as_file
                 (filterStream (\<lambda>e. signature_of e = SIGNATURE_FILE) entries))))"

text \<open>
  \<^verbatim>\<open>centralDirectoryEntries(source)\<close>: \<^verbatim>\<open>start\<close> locates the central directory, each
  \<^verbatim>\<open>pull\<close> decodes one record with its signature and closes the sequence when
  \<^verbatim>\<open>readCentralDirectory\<close> returns \<^verbatim>\<open>null\<close>.
\<close>

function centralDirectoryEntries_run ::
  "platform \<Rightarrow> stream \<Rightarrow> error + CentralDirectoryEntry list" where
  "centralDirectoryEntries_run pl centralDirectoryStream =
     await (readCentralDirectory pl centralDirectoryStream False) (\<lambda>(entry, stream').
       case entry of
         None \<Rightarrow> Inr []
       | Some e \<Rightarrow> await (centralDirectoryEntries_run pl stream') (\<lambda>es. Inr (e # es)))"
  by pat_completeness auto
termination
proof (relation "measure (\<lambda>(pl, stream). length (concat stream))", goal_cases)
  case 1
  then show ?case by simp
next
  case (2 pl stream v entry stream' e)
  then have "readCentralDirectory pl stream False = Inr (Some e, stream')" by simp
  from readCentralDirectory_False_shorter[OF this] show ?case by simp
qed

declare centralDirectoryEntries_run.simps [simp del]

definition centralDirectoryEntries ::
  "nat \<Rightarrow> platform \<Rightarrow> BytesSource \<Rightarrow> (error + CentralDirectoryEntry list) option" where
  "centralDirectoryEntries fuel pl source =
     (case streamCentralDirectory fuel source of
        None \<Rightarrow> None
      | Some (Inl e) \<Rightarrow> Some (Inl e)
      | Some (Inr centralDirectoryStream) \<Rightarrow>
          Some (centralDirectoryEntries_run pl centralDirectoryStream))"

text \<open>\<^verbatim>\<open>requestChunkRange\<close> without the gate, which only delays it.\<close>

definition requestChunkRange ::
  "BytesSource \<Rightarrow> CentralDirectoryEntry list \<Rightarrow> error + stream" where
  "requestChunkRange source zipEntries =
     await (chunkRange zipEntries)
       (\<lambda>(firstByte, lastByte). streamBytes source firstByte lastByte)"

text \<open>
  The \<^verbatim>\<open>pull\<close> callback of the readable side of \<^verbatim>\<open>fetchPartitionedEntries\<close>, called
  until it closes the sequence, on the queue \<^verbatim>\<open>byteStreams\<close>: the file entries it
  enqueues. The waiting for pending requests is left out.
\<close>

function fetchPartitionedEntries_pull ::
  "platform \<Rightarrow> (CentralDirectoryEntry list \<times> stream) list \<Rightarrow> error + FileEntry list" where
  "fetchPartitionedEntries_pull pl [] = Inr []"
| "fetchPartitionedEntries_pull pl ((zipEntries, stream) # queued) =
     await (readFileEntry pl stream False) (\<lambda>(file, stream').
       case file of
         None \<Rightarrow> fetchPartitionedEntries_pull pl queued
       | Some f \<Rightarrow>
           if find (\<lambda>entry. fileName entry = FileEntry.fileName f) zipEntries = None
           then fetchPartitionedEntries_pull pl ((zipEntries, stream') # queued)
           else await (fetchPartitionedEntries_pull pl ((zipEntries, stream') # queued))
                  (\<lambda>files. Inr (f # files)))"
  by pat_completeness auto
termination
proof (relation "measure (\<lambda>(pl, q). sum_list (map (\<lambda>(zs, s). Suc (length (concat s))) q))",
    goal_cases)
  case 1
  then show ?case by simp
next
  case (2 pl zipEntries stream queued v fl stream')
  then show ?case by simp
next
  case (3 pl zipEntries stream queued v fl stream' f)
  then have "readFileEntry pl stream False = Inr (Some f, stream')" by simp
  from readFileEntry_False_shorter[OF this] show ?case by simp
next
  case (4 pl zipEntries stream queued v fl stream' f)
  then have "readFileEntry pl stream False = Inr (Some f, stream')" by simp
  from readFileEntry_False_shorter[OF this] show ?case by simp
qed

declare fetchPartitionedEntries_pull.simps(2) [simp del]

text \<open>
  \<^verbatim>\<open>iterateZipFiles2\<close>. The range requests of the non-empty partitions are issued in
  the order of the partitions; \<open>completion\<close> is the order in which their streams are
  pushed onto \<^verbatim>\<open>byteStreams\<close>, which is the order in which the requests are answered.
  An error of the central directory sequence travels down the pipes as an abort of the
  fetcher's writable side, whose \<^verbatim>\<open>abort\<close> callback closes the readable side: the
  consumer receives no file and no error. A rejected range request errors the
  writable side, after which neither \<^verbatim>\<open>close\<close> nor \<^verbatim>\<open>abort\<close> is called and the consumer
  waits for ever (\<open>None\<close>).
\<close>

definition iterateZipFiles2 ::
  "nat \<Rightarrow> platform \<Rightarrow> BytesSource \<Rightarrow> (CentralDirectoryEntry \<Rightarrow> bool)
     \<Rightarrow> ((CentralDirectoryEntry list \<times> stream) list
          \<Rightarrow> (CentralDirectoryEntry list \<times> stream) list)
     \<Rightarrow> (error + FileEntry list) option" where
  "iterateZipFiles2 fuel pl source keep completion =
     (case centralDirectoryEntries fuel pl source of
        None \<Rightarrow> None
      | Some (Inl e) \<Rightarrow> Some (Inr [])
      | Some (Inr entries) \<Rightarrow>
          (let partitions = partitionNearbyEntries default_maxGap (filterStream keep entries);
               requests = filter (\<lambda>zipEntries. zipEntries \<noteq> []) partitions;
               responses = map (\<lambda>zipEntries. (zipEntries, requestChunkRange source zipEntries))
                             requests
           in if \<exists>r \<in> set responses. isl (snd r) then None
              else Some (fetchPartitionedEntries_pull pl
                           (completion (map (\<lambda>(zipEntries, r). (zipEntries, projr r))
                              responses)))))"

section \<open>Archives laid out record after record\<close>

text \<open>
  The number of bytes a local file record and a central directory record take in the
  archive, signature included, by the lengths they declare.
\<close>

definition local_size :: "FileEntry \<Rightarrow> nat" where
  "local_size f =
     30 + FileEntry.fileNameLength f + FileEntry.extraLength f + FileEntry.compressedSize f"

definition central_size :: "CentralDirectoryEntry \<Rightarrow> nat" where
  "central_size c = 46 + fileNameLength c + extraLength c + fileCommentLength c"

text \<open>
  The record that starts at offset \<open>off\<close> of the archive \<open>data\<close> lies inside the archive
  and is decoded, from a stream that starts there, as the given entry.
\<close>

definition local_at :: "platform \<Rightarrow> bytes \<Rightarrow> nat \<Rightarrow> FileEntry \<Rightarrow> bool" where
  "local_at pl data off f \<longleftrightarrow>
     off + local_size f \<le> length data \<and>
     content (readNextEntry pl (blob_stream (drop off data)))
       = Inr (Some (File f), drop (off + local_size f) data)"

definition central_at :: "platform \<Rightarrow> bytes \<Rightarrow> nat \<Rightarrow> CentralDirectoryEntry \<Rightarrow> bool" where
  "central_at pl data off c \<longleftrightarrow>
     off + central_size c \<le> length data \<and>
     content (readNextEntry pl (blob_stream (drop off data)))
       = Inr (Some (CentralDirectory c), drop (off + central_size c) data)"

definition end_at :: "platform \<Rightarrow> bytes \<Rightarrow> nat \<Rightarrow> CentralDirectoryEndEntry \<Rightarrow> bool" where
  "end_at pl data off eo \<longleftrightarrow>
     off + 22 + commentLength eo = length data \<and>
     content (readNextEntry pl (blob_stream (drop off data)))
       = Inr (Some (CentralDirectoryEnd eo), [])"

fun locals_at :: "platform \<Rightarrow> bytes \<Rightarrow> nat \<Rightarrow> FileEntry list \<Rightarrow> bool" where
  "locals_at pl data off [] = True"
| "locals_at pl data off (f # fs) =
     (local_at pl data off f \<and> locals_at pl data (off + local_size f) fs)"

fun centrals_at :: "platform \<Rightarrow> bytes \<Rightarrow> nat \<Rightarrow> CentralDirectoryEntry list \<Rightarrow> bool" where
  "centrals_at pl data off [] = True"
| "centrals_at pl data off (c # cs) =
     (central_at pl data off c \<and> centrals_at pl data (off + central_size c) cs)"

text \<open>
  A local record and a central directory record agree when the fields that both
  records have, the signature apart, hold the same values.
\<close>

definition agrees :: "FileEntry \<Rightarrow> CentralDirectoryEntry \<Rightarrow> bool" where
  "agrees f c \<longleftrightarrow>
     FileEntry.generalPurpose f = generalPurpose c \<and>
     FileEntry.compressionMethod f = compressionMethod c \<and>
     FileEntry.lastModifiedTime f = lastModifiedTime c \<and>
     FileEntry.lastModifiedDate f = lastModifiedDate c \<and>
     FileEntry.crc f = crc c \<and>
     FileEntry.compressedSize f = compressedSize c \<and>
     FileEntry.uncompressedSize f = uncompressedSize c \<and>
     FileEntry.fileNameLength f = fileNameLength c \<and>
     FileEntry.extraLength f = extraLength c \<and>
     FileEntry.fileName f = fileName c \<and>
     FileEntry.extra f = extra c \<and>
     FileEntry.isDirectory f = isDirectory c"

text \<open>
  The central directory records \<open>cs\<close> describe the local records \<open>fs\<close>, the first of
  which starts at \<open>off\<close>: one record for each, in the same order, naming its offset
  and agreeing with it.
\<close>

fun describes :: "nat \<Rightarrow> FileEntry list \<Rightarrow> CentralDirectoryEntry list \<Rightarrow> bool" where
  "describes off [] [] = True"
| "describes off (f # fs) (c # cs) =
     (firstByteAt c = off \<and> agrees f c \<and> describes (off + local_size f) fs cs)"
| "describes off _ _ = False"

text \<open>
  A well-formed archive: the local records \<open>fs\<close> back to back from offset 0, then the
  central directory records \<open>cs\<close> that describe them, then the end-of-central-directory
  record \<open>eo\<close>, which names the offset of the central directory, and its comment.
\<close>

definition end_offset :: "FileEntry list \<Rightarrow> CentralDirectoryEntry list \<Rightarrow> nat" where
  "end_offset fs cs = sum_list (map local_size fs) + sum_list (map central_size cs)"

definition well_formed ::
  "platform \<Rightarrow> bytes \<Rightarrow> FileEntry list \<Rightarrow> CentralDirectoryEntry list
     \<Rightarrow> CentralDirectoryEndEntry \<Rightarrow> bool" where
  "well_formed pl data fs cs eo \<longleftrightarrow>
     locals_at pl data 0 fs \<and>
     centrals_at pl data (sum_list (map local_size fs)) cs \<and>
     end_at pl data (end_offset fs cs) eo \<and>
     describes 0 fs cs \<and>
     centralDirectoryOffset eo = sum_list (map local_size fs)"

text \<open>
  The end-of-central-directory record, which starts at offset \<open>e\<close>, can be located:
  its signature does not occur again behind its start, and its first 20 bytes, the
  signature and the fields up to the offset of the central directory, lie within one
  chunk of the scan. The scan fetches the chunk \<open>[chunkStart1, length - 1]\<close> first and the
  chunk \<open>[chunkStart2, chunkEnd2]\<close> next; the record starts in the first of them, or its
  first 20 bytes lie in the second. (The comment behind the record is shorter than
  65536 bytes, so the record never starts before \<open>chunkStart2\<close>.)
\<close>

definition locatable :: "bytes \<Rightarrow> nat \<Rightarrow> bool" where
  "locatable data e \<longleftrightarrow>
     no_signature (drop (e + 1) data) \<and>
     (let chunkSize = CENTRAL_DIRECTORY_END_SCAN_CHUNK_SIZE;
          chunkStart1 = max 0 (int (length data) - chunkSize);
          chunkStart2 = max 0 (chunkStart1 - chunkSize);
          chunkEnd2 = min (chunkStart2 + chunkSize - 1) (int (length data) - 1)
      in chunkStart1 \<le> int e \<or> (chunkStart2 \<le> int e \<and> int e + 19 \<le> chunkEnd2))"

text \<open>
  The range request for the record \<open>c\<close> of the file \<open>f\<close> ends at \<open>lastByteAt c\<close>, which
  lies \<open>fileCommentLength c + 2\<close> bytes behind the local record of \<open>f\<close>. Those bytes are
  harmless when the fetcher, reading on in the stream of the request, decodes no
  further file entry with the name of \<open>c\<close> from them and meets no error, and when they
  are at most \<open>- maxGap\<close>, so that the partitioner does not put a later record into the
  partition of \<open>c\<close>.
\<close>

definition fetched_behind :: "bytes \<Rightarrow> FileEntry \<Rightarrow> CentralDirectoryEntry \<Rightarrow> bytes" where
  "fetched_behind data f c =
     take (fileCommentLength c + 2) (drop (firstByteAt c + local_size f) data)"

definition harmless ::
  "platform \<Rightarrow> bytes \<Rightarrow> FileEntry \<Rightarrow> CentralDirectoryEntry \<Rightarrow> bool" where
  "harmless pl data f c \<longleftrightarrow>
     int (fileCommentLength c) + 2 + default_maxGap \<le> 0 \<and>
     fetchPartitionedEntries_pull pl [([c], blob_stream (fetched_behind data f c))] = Inr []"



text \<open>The default predicate, applied to a file entry.\<close>

definition predicate_file :: "FileEntry \<Rightarrow> bool" where
  "predicate_file e = (\<not> FileEntry.isDirectory e \<or> FileEntry.uncompressedSize e \<noteq> 0)"

section \<open>Decoding a record from any stream that holds it\<close>

lemma concat_blob_stream [simp]: "concat (blob_stream d) = d"
  by (simp add: blob_stream_def)

lemma content_InrD:
  "content r = Inr (v, d) \<Longrightarrow> \<exists>s'. r = Inr (v, s') \<and> concat s' = d"
  by (cases r) (auto simp: content_def)

lemma take_drop_take:
  "a + n \<le> k \<Longrightarrow> take n (drop a (take k d)) = take n (drop a d)"
  by (simp add: drop_take min_def)

lemma zero_padded_drop_take:
  "a + n \<le> k \<Longrightarrow> zero_padded n (drop a (take k d)) = zero_padded n (drop a d)"
  by (auto simp: zero_padded_def drop_take min_def)

lemma zero_padded_take:
  "n \<le> k \<Longrightarrow> zero_padded n (take k d) = zero_padded n d"
  using zero_padded_drop_take[of 0 n k d] by simp

lemma zero_padded_inside:
  "n \<le> length d \<Longrightarrow> zero_padded n d = take n d"
  by (simp add: zero_padded_def)

lemma le_nat_append: "le_nat (xs @ ys) = le_nat xs + 256 ^ length xs * le_nat ys"
  by (induction xs) (simp_all add: le_nat_def algebra_simps)

lemma le_nat_less: "le_nat xs < 256 ^ length xs"
proof (induction xs)
  case Nil
  then show ?case by (simp add: le_nat_def)
next
  case (Cons a xs)
  have "unat a < 256" using unsigned_less[of a] by simp
  moreover have "le_nat (a # xs) = unat a + 256 * le_nat xs" by (simp add: le_nat_def)
  ultimately show ?case using Cons.IH by simp
qed

lemma signature_at_short:
  assumes "length d \<le> 3"
  shows "signature_at d < 16777216"
proof -
  have "signature_at d = le_nat (d @ replicate (4 - length d) 0)"
    using assms by (simp add: signature_at_def u32_def zero_padded_def)
  also have "\<dots> = le_nat d" by (simp add: le_nat_append le_nat_zeros)
  also have "\<dots> < 256 ^ length d" by (rule le_nat_less)
  also have "(256 :: nat) ^ length d \<le> 256 ^ 3"
    using assms by (intro power_increasing) simp_all
  finally show ?thesis by simp
qed

lemma signature_at_inside:
  "4 \<le> length d \<Longrightarrow> signature_at d = le_nat (take 4 d)"
  by (simp add: signature_at_def u32_def zero_padded_def)

lemma signature_at_take:
  "4 \<le> k \<Longrightarrow> signature_at (take k d) = signature_at d"
  by (simp add: signature_at_def zero_padded_take)

text \<open>The fields of a local record are read from its own bytes only.\<close>

lemma file_record_size_take:
  "26 \<le> k \<Longrightarrow> file_record_size (take k d) = file_record_size d"
  by (simp add: file_record_size_def zero_padded_take)

lemma file_raw_take:
  "file_record_size d \<le> k \<Longrightarrow> file_raw (take k d) = file_raw d"
  by (simp add: file_raw_def file_record_size_def Let_def zero_padded_take take_drop_take)

lemma file_entry_take:
  "file_record_size d \<le> k \<Longrightarrow> file_entry pl (take k d) b = file_entry pl d b"
  by (simp add: file_entry_def file_record_size_def Let_def zero_padded_take
      take_drop_take zero_padded_drop_take)

lemma file_record_take:
  assumes "file_record_size d \<le> k"
  shows "file_record pl (take k d)
           = await (file_record pl d) (\<lambda>(r, d'). Inr (r, drop (file_record_size d) (take k d)))"
proof -
  have k26: "26 \<le> k" using assms by (simp add: file_record_size_def Let_def)
  show ?thesis
    unfolding file_record_def
    by (cases "inflateRaw pl (file_raw d)")
       (simp_all add: file_raw_take[OF assms] file_entry_take[OF assms]
          file_record_size_take[OF k26] zero_padded_take[OF k26])
qed

lemma local_size_file_entry:
  "local_size (file_entry pl d b) = 4 + file_record_size d"
  by (simp add: local_size_def file_entry_def file_record_size_def Let_def)

lemma central_size_central_entry:
  "central_size (central_entry pl d) = 4 + central_record_size d"
  by (simp add: central_size_def central_entry_def central_record_size_def Let_def)

text \<open>What the three kinds of records say about the bytes at their offset.\<close>

lemma signatures_differ:
  "SIGNATURE_FILE \<noteq> SIGNATURE_CENTRAL_DIRECTORY_START"
  "SIGNATURE_FILE \<noteq> SIGNATURE_CENTRAL_DIRECTORY_END"
  "SIGNATURE_CENTRAL_DIRECTORY_START \<noteq> SIGNATURE_CENTRAL_DIRECTORY_END"
  "SIGNATURE_CENTRAL_DIRECTORY_START \<noteq> SIGNATURE_FILE"
  "SIGNATURE_CENTRAL_DIRECTORY_END \<noteq> SIGNATURE_FILE"
  "SIGNATURE_CENTRAL_DIRECTORY_END \<noteq> SIGNATURE_CENTRAL_DIRECTORY_START"
  "16777216 \<le> SIGNATURE_FILE"
  by (simp_all add: SIGNATURE_FILE_def SIGNATURE_CENTRAL_DIRECTORY_START_def
      SIGNATURE_CENTRAL_DIRECTORY_END_def)

lemma content_await_pair:
  assumes "content p = q"
  shows "content (await p (\<lambda>(e, s'). Inr (g e, s'))) = await q (\<lambda>(e, d'). Inr (g e, d'))"
proof (cases p)
  case (Inl a)
  with assms have "q = Inl a" by auto
  with Inl show ?thesis by simp
next
  case (Inr v)
  obtain e s' where v: "v = (e, s')" by (cases v)
  with Inr assms have "q = Inr (e, concat s')" by auto
  with Inr v show ?thesis by simp
qed

lemma readNextEntry_content:
  "content (readNextEntry pl s) =
     (let g = signature_at (concat s); d = drop 4 (concat s) in
      if g = SIGNATURE_FILE then
        await (file_record pl d) (\<lambda>(e, d'). Inr (map_option File e, d'))
      else if g = SIGNATURE_CENTRAL_DIRECTORY_START then
        Inr (Some (CentralDirectory (central_entry pl d)), drop (central_record_size d) d)
      else if g = SIGNATURE_CENTRAL_DIRECTORY_END then
        Inr (Some (CentralDirectoryEnd (end_entry pl d)), drop (end_record_size d) d)
      else Inr (None, d))"
proof -
  let ?s0 = "snd (limitBytes s 4)"
  have c0: "concat ?s0 = drop 4 (concat s)" by (rule limitBytes_rest)
  have f: "content (await (readFileEntry pl ?s0 True) (\<lambda>(e, s'). Inr (map_option File e, s')))
             = await (file_record pl (drop 4 (concat s))) (\<lambda>(e, d'). Inr (map_option File e, d'))"
    by (rule content_await_pair) (simp add: readFileEntry_True_content c0)
  have "content (await (readCentralDirectory pl ?s0 True)
                      (\<lambda>(e, s'). Inr (map_option CentralDirectory e, s')))
          = await (Inr (Some (central_entry pl (drop 4 (concat s))),
                    drop (central_record_size (drop 4 (concat s))) (drop 4 (concat s))))
              (\<lambda>(e, d'). Inr (map_option CentralDirectory e, d'))"
    by (rule content_await_pair) (simp add: readCentralDirectory_True_content c0)
  then have c: "content (await (readCentralDirectory pl ?s0 True)
                      (\<lambda>(e, s'). Inr (map_option CentralDirectory e, s')))
             = Inr (Some (CentralDirectory (central_entry pl (drop 4 (concat s)))),
                    drop (central_record_size (drop 4 (concat s))) (drop 4 (concat s)))"
    by simp
  have "content (await (readEndCentralDirectory pl ?s0 True)
                      (\<lambda>(e, s'). Inr (map_option CentralDirectoryEnd e, s')))
          = await (Inr (Some (end_entry pl (drop 4 (concat s))),
                    drop (end_record_size (drop 4 (concat s))) (drop 4 (concat s))))
              (\<lambda>(e, d'). Inr (map_option CentralDirectoryEnd e, d'))"
    by (rule content_await_pair) (simp add: readEndCentralDirectory_True_content c0)
  then have e: "content (await (readEndCentralDirectory pl ?s0 True)
                      (\<lambda>(e, s'). Inr (map_option CentralDirectoryEnd e, s')))
             = Inr (Some (CentralDirectoryEnd (end_entry pl (drop 4 (concat s)))),
                    drop (end_record_size (drop 4 (concat s))) (drop 4 (concat s)))"
    by simp
  show ?thesis
    unfolding readNextEntry_eq Let_def
    by (simp only: f c e c0 content_if content_simps)
qed

lemma readNextEntry_same_content:
  "concat s = concat t \<Longrightarrow> content (readNextEntry pl s) = content (readNextEntry pl t)"
  by (simp add: readNextEntry_content)

lemma local_atD:
  assumes "local_at pl data off f"
  shows "signature_at (drop off data) = SIGNATURE_FILE"
    and "file_record pl (drop (off + 4) data) = Inr (Some f, drop (off + local_size f) data)"
    and "local_size f = 4 + file_record_size (drop (off + 4) data)"
    and "off + local_size f \<le> length data"
proof -
  let ?D = "drop off data"
  from assms have eq: "content (readNextEntry pl (blob_stream ?D))
      = Inr (Some (File f), drop (off + local_size f) data)"
    and inside: "off + local_size f \<le> length data"
    by (simp_all add: local_at_def)
  from eq show g: "signature_at ?D = SIGNATURE_FILE"
    by (auto simp: readNextEntry_content Let_def split: if_splits)
  with eq have "await (file_record pl (drop 4 ?D)) (\<lambda>(e, d'). Inr (map_option File e, d'))
      = Inr (Some (File f), drop (off + local_size f) data)"
    by (simp add: readNextEntry_content Let_def)
  then show fr: "file_record pl (drop (off + 4) data)
      = Inr (Some f, drop (off + local_size f) data)"
    by (cases "file_record pl (drop 4 ?D)") (auto simp: add.commute)
  from file_record_Inr[OF fr] obtain b where "f = file_entry pl (drop (off + 4) data) b"
    by auto
  then show "local_size f = 4 + file_record_size (drop (off + 4) data)"
    by (simp add: local_size_file_entry)
  from inside show "off + local_size f \<le> length data" .
qed

lemma central_atD:
  assumes "central_at pl data off c"
  shows "signature_at (drop off data) = SIGNATURE_CENTRAL_DIRECTORY_START"
    and "c = central_entry pl (drop (off + 4) data)"
    and "central_size c = 4 + central_record_size (drop (off + 4) data)"
    and "off + central_size c \<le> length data"
proof -
  let ?D = "drop off data"
  from assms have eq: "content (readNextEntry pl (blob_stream ?D))
      = Inr (Some (CentralDirectory c), drop (off + central_size c) data)"
    and inside: "off + central_size c \<le> length data"
    by (simp_all add: central_at_def)
  have nf: "await (file_record pl d) (\<lambda>(e, d'). Inr (map_option File e, d'))
              \<noteq> Inr (Some (CentralDirectory c), r)" for d r
    by (cases "file_record pl d") (auto simp: map_option_case split: option.splits)
  from eq show g: "signature_at ?D = SIGNATURE_CENTRAL_DIRECTORY_START"
    using nf by (auto simp: readNextEntry_content Let_def split: if_splits)
  with eq show c: "c = central_entry pl (drop (off + 4) data)"
    by (simp add: readNextEntry_content Let_def signatures_differ add.commute)
  then show "central_size c = 4 + central_record_size (drop (off + 4) data)"
    by (simp add: central_size_central_entry)
  from inside show "off + central_size c \<le> length data" .
qed

lemma end_atD:
  assumes "end_at pl data off eo"
  shows "signature_at (drop off data) = SIGNATURE_CENTRAL_DIRECTORY_END"
    and "eo = end_entry pl (drop (off + 4) data)"
    and "off + 22 + commentLength eo = length data"
proof -
  let ?D = "drop off data"
  from assms have eq: "content (readNextEntry pl (blob_stream ?D))
      = Inr (Some (CentralDirectoryEnd eo), [])"
    and inside: "off + 22 + commentLength eo = length data"
    by (simp_all add: end_at_def)
  have nf: "await (file_record pl d) (\<lambda>(e, d'). Inr (map_option File e, d'))
              \<noteq> Inr (Some (CentralDirectoryEnd eo), r)" for d r
    by (cases "file_record pl d") (auto simp: map_option_case split: option.splits)
  from eq show g: "signature_at ?D = SIGNATURE_CENTRAL_DIRECTORY_END"
    using nf by (auto simp: readNextEntry_content Let_def split: if_splits)
  with eq show "eo = end_entry pl (drop (off + 4) data)"
    by (simp add: readNextEntry_content Let_def signatures_differ add.commute)
  from inside show "off + 22 + commentLength eo = length data" .
qed

section \<open>The sequential path on a well-formed archive\<close>

lemma await_return: "await p (\<lambda>v. Inr v) = p"
  by (cases p) simp_all

lemma await_assoc: "await (await p f) g = await p (\<lambda>v. await (f v) g)"
  by (cases p) simp_all

lemma zipEntries_run_step:
  assumes "content (readNextEntry pl s) = Inr (Some e, d')"
  shows "\<exists>s'. concat s' = d'
           \<and> zipEntries_run pl s = await (zipEntries_run pl s') (\<lambda>es. Inr (e # es))"
proof -
  from content_InrD[OF assms] obtain s' where r: "readNextEntry pl s = Inr (Some e, s')"
    and c: "concat s' = d'" by blast
  have "zipEntries_run pl s = await (zipEntries_run pl s') (\<lambda>es. Inr (e # es))"
    by (subst zipEntries_run.simps) (simp add: zipEntries_pull_def r)
  with c show ?thesis by blast
qed

lemma zipEntries_run_end:
  assumes "concat s = []"
  shows "zipEntries_run pl s = Inr []"
proof -
  have "content (readNextEntry pl s) = Inr (None, [])"
    unfolding readNextEntry_content assms
    by (simp add: Let_def signature_at_Nil SIGNATURE_FILE_def
        SIGNATURE_CENTRAL_DIRECTORY_START_def SIGNATURE_CENTRAL_DIRECTORY_END_def)
  from content_InrD[OF this] obtain s' where "readNextEntry pl s = Inr (None, s')" by blast
  then show ?thesis
    by (subst zipEntries_run.simps) (simp add: zipEntries_pull_def)
qed

lemma zipEntries_run_locals:
  "locals_at pl data off fs \<Longrightarrow> concat s = drop off data \<Longrightarrow>
   \<exists>s'. concat s' = drop (off + sum_list (map local_size fs)) data
        \<and> zipEntries_run pl s
            = await (zipEntries_run pl s') (\<lambda>es. Inr (map File fs @ es))"
proof (induction fs arbitrary: off s)
  case Nil
  then show ?case by (auto simp: await_return)
next
  case (Cons f fs)
  from Cons.prems have at: "local_at pl data off f"
    and rest: "locals_at pl data (off + local_size f) fs" by simp_all
  have "content (readNextEntry pl s) = content (readNextEntry pl (blob_stream (drop off data)))"
    by (rule readNextEntry_same_content) (simp add: Cons.prems)
  with at have "content (readNextEntry pl s)
      = Inr (Some (File f), drop (off + local_size f) data)"
    by (simp add: local_at_def)
  from zipEntries_run_step[OF this] obtain s1 where
    c1: "concat s1 = drop (off + local_size f) data"
    and r1: "zipEntries_run pl s = await (zipEntries_run pl s1) (\<lambda>es. Inr (File f # es))"
    by blast
  from Cons.IH[OF rest c1] obtain s' where
    c': "concat s' = drop (off + local_size f + sum_list (map local_size fs)) data"
    and r': "zipEntries_run pl s1
              = await (zipEntries_run pl s') (\<lambda>es. Inr (map File fs @ es))"
    by blast
  have "zipEntries_run pl s
          = await (zipEntries_run pl s') (\<lambda>es. Inr (map File (f # fs) @ es))"
    by (simp add: r1 r' await_assoc)
  with c' show ?case by (auto simp: add.assoc)
qed

lemma zipEntries_run_centrals:
  "centrals_at pl data off cs \<Longrightarrow> concat s = drop off data \<Longrightarrow>
   \<exists>s'. concat s' = drop (off + sum_list (map central_size cs)) data
        \<and> zipEntries_run pl s
            = await (zipEntries_run pl s') (\<lambda>es. Inr (map CentralDirectory cs @ es))"
proof (induction cs arbitrary: off s)
  case Nil
  then show ?case by (auto simp: await_return)
next
  case (Cons c cs)
  from Cons.prems have at: "central_at pl data off c"
    and rest: "centrals_at pl data (off + central_size c) cs" by simp_all
  have "content (readNextEntry pl s) = content (readNextEntry pl (blob_stream (drop off data)))"
    by (rule readNextEntry_same_content) (simp add: Cons.prems)
  with at have "content (readNextEntry pl s)
      = Inr (Some (CentralDirectory c), drop (off + central_size c) data)"
    by (simp add: central_at_def)
  from zipEntries_run_step[OF this] obtain s1 where
    c1: "concat s1 = drop (off + central_size c) data"
    and r1: "zipEntries_run pl s
               = await (zipEntries_run pl s1) (\<lambda>es. Inr (CentralDirectory c # es))"
    by blast
  from Cons.IH[OF rest c1] obtain s' where
    c': "concat s' = drop (off + central_size c + sum_list (map central_size cs)) data"
    and r': "zipEntries_run pl s1
              = await (zipEntries_run pl s') (\<lambda>es. Inr (map CentralDirectory cs @ es))"
    by blast
  have "zipEntries_run pl s
          = await (zipEntries_run pl s') (\<lambda>es. Inr (map CentralDirectory (c # cs) @ es))"
    by (simp add: r1 r' await_assoc)
  with c' show ?case by (auto simp: add.assoc)
qed

lemma zipEntries_run_well_formed:
  assumes wf: "well_formed pl data fs cs eo" and s: "concat s = data"
  shows "zipEntries_run pl s
           = Inr (map File fs @ map CentralDirectory cs @ [CentralDirectoryEnd eo])"
proof -
  from wf have l: "locals_at pl data 0 fs"
    and c: "centrals_at pl data (sum_list (map local_size fs)) cs"
    and e: "end_at pl data (end_offset fs cs) eo"
    by (simp_all add: well_formed_def)
  from zipEntries_run_locals[OF l, of s] s obtain s1 where
    c1: "concat s1 = drop (sum_list (map local_size fs)) data"
    and r1: "zipEntries_run pl s = await (zipEntries_run pl s1) (\<lambda>es. Inr (map File fs @ es))"
    by auto
  from zipEntries_run_centrals[OF c c1] obtain s2 where
    c2: "concat s2 = drop (end_offset fs cs) data"
    and r2: "zipEntries_run pl s1
              = await (zipEntries_run pl s2) (\<lambda>es. Inr (map CentralDirectory cs @ es))"
    by (auto simp: end_offset_def)
  have "content (readNextEntry pl s2)
          = content (readNextEntry pl (blob_stream (drop (end_offset fs cs) data)))"
    by (rule readNextEntry_same_content) (simp add: c2)
  with e have "content (readNextEntry pl s2) = Inr (Some (CentralDirectoryEnd eo), [])"
    by (simp add: end_at_def)
  from zipEntries_run_step[OF this] obtain s3 where c3: "concat s3 = []"
    and r3: "zipEntries_run pl s2
               = await (zipEntries_run pl s3) (\<lambda>es. Inr (CentralDirectoryEnd eo # es))"
    by blast
  show ?thesis
    by (simp add: r1 r2 r3 zipEntries_run_end[OF c3])
qed

lemma locals_at_signature:
  "locals_at pl data off fs \<Longrightarrow> f \<in> set fs \<Longrightarrow> FileEntry.signature f = SIGNATURE_FILE"
proof (induction fs arbitrary: off)
  case Nil
  then show ?case by simp
next
  case (Cons g fs)
  show ?case
  proof (cases "f = g")
    case True
    from Cons.prems have "local_at pl data off g" by simp
    from file_record_Inr[OF local_atD(2)[OF this]] True show ?thesis
      by (auto simp: file_entry_def Let_def)
  next
    case False
    with Cons show ?thesis by auto
  qed
qed

lemma centrals_at_signature:
  "centrals_at pl data off cs \<Longrightarrow> c \<in> set cs
     \<Longrightarrow> signature c = SIGNATURE_CENTRAL_DIRECTORY_START"
proof (induction cs arbitrary: off)
  case Nil
  then show ?case by simp
next
  case (Cons g cs)
  show ?case
  proof (cases "c = g")
    case True
    from Cons.prems have "central_at pl data off g" by simp
    from central_atD(2)[OF this] True show ?thesis
      by (simp add: central_entry_def Let_def)
  next
    case False
    with Cons show ?thesis by auto
  qed
qed

lemma files_of_entries:
  assumes "\<forall>f \<in> set fs. FileEntry.signature f = SIGNATURE_FILE"
    and "\<forall>z \<in> set zs. signature_of z \<noteq> SIGNATURE_FILE"
  shows "List.map_filter as_file
           (filterStream (\<lambda>e. signature_of e = SIGNATURE_FILE) (map File fs @ zs)) = fs"
proof -
  have a: "filter (\<lambda>e. signature_of e = SIGNATURE_FILE) (map File fs) = map File fs"
    using assms(1) by (induction fs) simp_all
  have b: "filter (\<lambda>e. signature_of e = SIGNATURE_FILE) zs = []"
    using assms(2) by (induction zs) simp_all
  have c: "List.map_filter as_file (map File gs) = gs" for gs
    by (induction gs) (simp_all add: List.map_filter_def as_file_def)
  show ?thesis by (simp add: filterStream_def a b c)
qed

theorem readEntireZip_well_formed:
  assumes wf: "well_formed pl data fs cs eo" and s: "concat s = data"
  shows "readEntireZip pl s keep = Inr (filter keep fs)"
proof -
  from wf have l: "locals_at pl data 0 fs"
    and c: "centrals_at pl data (sum_list (map local_size fs)) cs"
    and e: "end_at pl data (end_offset fs cs) eo"
    by (simp_all add: well_formed_def)
  have f: "\<forall>f \<in> set fs. FileEntry.signature f = SIGNATURE_FILE"
    using locals_at_signature[OF l] by blast
  have "CentralDirectoryEndEntry.signature eo = SIGNATURE_CENTRAL_DIRECTORY_END"
    using end_atD(2)[OF e] by (simp add: end_entry_def Let_def)
  then have z: "\<forall>z \<in> set (map CentralDirectory cs @ [CentralDirectoryEnd eo]).
                  signature_of z \<noteq> SIGNATURE_FILE"
    using centrals_at_signature[OF c] by (auto simp: signatures_differ)
  show ?thesis
    unfolding readEntireZip_def zipEntries_run_well_formed[OF wf s]
    using files_of_entries[OF f z] by (simp add: filterStream_def)
qed

section \<open>Properties of the partitioner\<close>

lemma concat_partition_run:
  "concat (partition_run maxGap st es) = currentChunk st @ es"
  by (induction es arbitrary: st)
     (simp_all add: partition_flush_def partition_transform_def)

lemma partition_run_no_empty:
  "currentChunk st \<noteq> [] \<Longrightarrow> [] \<notin> set (partition_run maxGap st es)"
  by (induction es arbitrary: st)
     (simp_all add: partition_flush_def partition_transform_def)

section \<open>Properties of the locator\<close>

lemma scan_no_signature:
  "no_signature view \<Longrightarrow> i \<le> int (length view) - 4 \<Longrightarrow>
   streamCentralDirectory_scan source view cd chunkStart i = Inr None"
proof (induction source view cd chunkStart i rule: streamCentralDirectory_scan.induct)
  case (1 source view cd chunkStart i)
  show ?case
  proof (cases "i \<ge> 0")
    case False
    then show ?thesis by (subst streamCentralDirectory_scan.simps) simp
  next
    case True
    with "1.prems" have g: "getUint32 view i = Inr (le_nat (take 4 (drop (nat i) view)))"
      by (simp add: getUint32_def)
    from "1.prems" True
    have ne: "le_nat (take 4 (drop (nat i) view)) \<noteq> SIGNATURE_CENTRAL_DIRECTORY_END"
      unfolding no_signature_def by (auto dest!: spec[of _ "nat i"])
    have "streamCentralDirectory_scan source view cd chunkStart (i - 1) = Inr None"
      using "1.IH"[OF True g ne] "1.prems" by simp
    with True g ne show ?thesis
      by (subst streamCentralDirectory_scan.simps) simp
  qed
qed

lemma no_signature_slice:
  "no_signature data \<Longrightarrow> no_signature (take n (drop m data))"
  unfolding no_signature_def
proof (intro allI impI)
  fix i
  assume a: "\<forall>i. i + 4 \<le> length data
               \<longrightarrow> le_nat (take 4 (drop i data)) \<noteq> SIGNATURE_CENTRAL_DIRECTORY_END"
    and b: "i + 4 \<le> length (take n (drop m data))"
  from b have "i + 4 \<le> n" by simp
  then have "take 4 (drop i (take n (drop m data))) = take 4 (drop (m + i) data)"
    by (simp add: drop_take min_def add.commute)
  moreover from b have "m + i + 4 \<le> length data" by (simp, linarith)
  ultimately
  show "le_nat (take 4 (drop i (take n (drop m data)))) \<noteq> SIGNATURE_CENTRAL_DIRECTORY_END"
    using a by simp
qed

lemma loop_without_signature:
  assumes sv: "serves source data" and ne: "data \<noteq> []" and ns: "no_signature data"
  shows "0 \<le> c \<Longrightarrow> c \<le> int (length data) \<Longrightarrow>
         streamCentralDirectory_loop fuel source cd c = None"
proof (induction fuel arbitrary: cd c)
  case 0
  then show ?case by simp
next
  case (Suc fuel)
  let ?cs = "max 0 (c - CENTRAL_DIRECTORY_END_SCAN_CHUNK_SIZE)"
  let ?ce = "min (?cs + CENTRAL_DIRECTORY_END_SCAN_CHUNK_SIZE - 1) (int (length data) - 1)"
  have cs: "0 \<le> ?cs" "?cs \<le> int (length data)" using Suc.prems
    by (auto simp: CENTRAL_DIRECTORY_END_SCAN_CHUNK_SIZE_def)
  have inside: "0 \<le> ?cs \<and> ?cs \<le> ?ce \<and> ?ce < int (length data)"
    using Suc.prems ne
    by (auto simp: CENTRAL_DIRECTORY_END_SCAN_CHUNK_SIZE_def min_def max_def)
  from sv inside obtain s where
    s: "streamBytes source ?cs ?ce = Inr s"
       "concat s = take (nat (?ce - ?cs + 1)) (drop (nat ?cs) data)"
    unfolding serves_def by blast
  have len: "source_length source = length data" using sv by (simp add: serves_def)
  have nsv: "no_signature (concat s)" using s(2) ns by (simp add: no_signature_slice)
  have scan: "streamCentralDirectory_scan source (concat s)
                (concatUint8Array [concat s, cd]) ?cs (int (length (concat s)) - 4) = Inr None"
    by (rule scan_no_signature[OF nsv]) simp
  show ?case
    using s(1) scan len cs Suc.IH[OF cs, of "concatUint8Array [concat s, cd]"]
    by (simp add: Let_def readBytes_def concatBytesStream_def)
qed

lemma le_nat_Cons: "le_nat (a # bs) = unat a + 256 * le_nat bs"
  by (simp add: le_nat_def)

lemma signature_first_byte:
  assumes "le_nat (a # bs) = SIGNATURE_CENTRAL_DIRECTORY_END"
  shows "a = 80"
proof -
  have "unat a < 256" using unsigned_less[of a] by simp
  then have "(unat a + 256 * le_nat bs) mod 256 = unat a" by simp
  also have "unat a + 256 * le_nat bs = SIGNATURE_CENTRAL_DIRECTORY_END"
    using assms by (simp add: le_nat_Cons)
  also have "SIGNATURE_CENTRAL_DIRECTORY_END mod 256 = 80"
    by (simp add: SIGNATURE_CENTRAL_DIRECTORY_END_def)
  finally have "unat a = unat (80 :: byte)" by simp
  then show ?thesis by (simp only: unsigned_word_eqI)
qed

lemma no_signature_without_80:
  "80 \<notin> set data \<Longrightarrow> no_signature data"
  unfolding no_signature_def
proof (intro allI impI notI)
  fix i
  assume n: "80 \<notin> set data" and i: "i + 4 \<le> length data"
    and eq: "le_nat (take 4 (drop i data)) = SIGNATURE_CENTRAL_DIRECTORY_END"
  from i have "drop i data = data ! i # drop (Suc i) data"
    by (simp add: Cons_nth_drop_Suc)
  then have "take 4 (drop i data) = data ! i # take 3 (drop (Suc i) data)"
    by (simp add: numeral_eq_Suc)
  with eq have "data ! i = 80" using signature_first_byte by simp
  moreover from i have "data ! i \<in> set data" by simp
  ultimately show False using n by simp
qed

lemma signature_last_byte:
  assumes "le_nat [a, b, c, d] = SIGNATURE_CENTRAL_DIRECTORY_END"
  shows "d = 6"
proof -
  have "unat a < 256" "unat b < 256" "unat c < 256"
    using unsigned_less[of a] unsigned_less[of b] unsigned_less[of c] by simp_all
  then have low: "unat a + 256 * unat b + 65536 * unat c < 16777216" by simp
  have "le_nat [a, b, c, d]
          = (unat a + 256 * unat b + 65536 * unat c) + unat d * 16777216"
    by (simp add: le_nat_def)
  then have "le_nat [a, b, c, d] div 16777216 = unat d"
    using low by simp
  moreover have "SIGNATURE_CENTRAL_DIRECTORY_END div 16777216 = 6"
    by (simp add: SIGNATURE_CENTRAL_DIRECTORY_END_def)
  ultimately have "unat d = unat (6 :: byte)" using assms by simp
  then show ?thesis by (simp only: unsigned_word_eqI)
qed

lemma length_four:
  assumes "length xs = 4"
  shows "\<exists>a b c d. xs = [a, b, c, d]"
proof -
  from assms have "length xs = Suc (Suc (Suc (Suc 0)))" by simp
  then show ?thesis by (auto simp: length_Suc_conv)
qed

lemma no_signature_without_6:
  "6 \<notin> set data \<Longrightarrow> no_signature data"
  unfolding no_signature_def
proof (intro allI impI notI)
  fix i
  assume n: "6 \<notin> set data" and i: "i + 4 \<le> length data"
    and eq: "le_nat (take 4 (drop i data)) = SIGNATURE_CENTRAL_DIRECTORY_END"
  let ?w = "take 4 (drop i data)"
  have "length ?w = 4" using i by simp
  then obtain a b c d where w: "?w = [a, b, c, d]"
    using length_four by blast
  with eq have "d = 6" using signature_last_byte by simp
  moreover have "?w ! 3 = data ! (i + 3)" using i by simp
  ultimately have "data ! (i + 3) = 6" using w by simp
  moreover from i have "data ! (i + 3) \<in> set data" by simp
  ultimately show False using n by simp
qed

lemma serves_memorySource: "serves (memorySource data) data"
proof -
  have "concat (blob_stream xs) = xs" for xs :: bytes
    by (simp add: blob_stream_def)
  then show ?thesis by (simp add: serves_def memorySource_def)
qed

lemma scan_finds:
  "0 \<le> k \<Longrightarrow> le_nat (take 4 (drop (nat k) view)) = SIGNATURE_CENTRAL_DIRECTORY_END \<Longrightarrow>
   no_signature (drop (nat k + 1) view) \<Longrightarrow> k \<le> i \<Longrightarrow> i \<le> int (length view) - 4 \<Longrightarrow>
   streamCentralDirectory_scan source view cd chunkStart i
     = await (streamCentralDirectory_found source view cd chunkStart k) (\<lambda>s. Inr (Some s))"
proof (induction source view cd chunkStart i rule: streamCentralDirectory_scan.induct)
  case (1 source view cd chunkStart i)
  note k0 = "1.prems"(1) and match = "1.prems"(2) and above = "1.prems"(3)
    and ki = "1.prems"(4) and top = "1.prems"(5)
  from ki k0 have i0: "0 \<le> i" by simp
  with top have g: "getUint32 view i = Inr (le_nat (take 4 (drop (nat i) view)))"
    by (simp add: getUint32_def)
  show ?case
  proof (cases "i = k")
    case True
    with g match have "getUint32 view k = Inr SIGNATURE_CENTRAL_DIRECTORY_END" by simp
    with True i0 show ?thesis
      by (subst streamCentralDirectory_scan.simps) simp
  next
    case False
    with ki have gt: "k < i" by simp
    define j where "j = nat i - (nat k + 1)"
    have j: "nat i = nat k + 1 + j" using gt k0 by (simp add: j_def)
    have "j + 4 \<le> length (drop (nat k + 1) view)"
      using top j i0 by simp
    with above have "le_nat (take 4 (drop j (drop (nat k + 1) view)))
                          \<noteq> SIGNATURE_CENTRAL_DIRECTORY_END"
      unfolding no_signature_def by blast
    then have ne: "le_nat (take 4 (drop (nat i) view)) \<noteq> SIGNATURE_CENTRAL_DIRECTORY_END"
      by (simp add: j add.commute)
    have "streamCentralDirectory_scan source view cd chunkStart (i - 1)
            = await (streamCentralDirectory_found source view cd chunkStart k)
                (\<lambda>s. Inr (Some s))"
      using "1.IH"[OF i0 g ne k0 match above] gt top by simp
    with g ne i0 show ?thesis
      by (subst streamCentralDirectory_scan.simps) simp
  qed
qed

lemma serves_slice:
  assumes "serves source data" and "a < b" and "b \<le> length data"
  shows "\<exists>s. streamBytes source (int a) (int b - 1) = Inr s
             \<and> concat s = take (b - a) (drop a data)"
proof -
  have "0 \<le> int a \<and> int a \<le> int b - 1 \<and> int b - 1 < int (length data)"
    using assms by simp
  with assms(1) obtain s where "streamBytes source (int a) (int b - 1) = Inr s"
    and "concat s = take (nat (int b - 1 - int a + 1)) (drop (nat (int a)) data)"
    unfolding serves_def by blast
  moreover have "nat (int b - 1 - int a + 1) = b - a" using assms by simp
  ultimately show ?thesis by simp
qed

lemma straddling_len: "length straddling_archive = 102400"
  by (simp add: straddling_archive_def)

lemma straddling_at: "drop 51188 straddling_archive
   = [80, 75, 5, 6, 0, 0, 0, 0, 1, 0, 1, 0, 47, 0, 0, 0, 197, 199, 0, 0, 246, 199]
     @ replicate 51190 32"
  by (simp add: straddling_archive_def)

lemma straddling_after: "take 11 (drop 51189 straddling_archive) = [75, 5, 6, 0, 0, 0, 0, 1, 0, 1, 0]"
  by (simp add: straddling_archive_def)

lemma straddling_tail: "drop 51200 straddling_archive
   = [47, 0, 0, 0, 197, 199, 0, 0, 246, 199] @ replicate 51190 32"
  by (simp add: straddling_archive_def)

section \<open>Properties of the fetcher\<close>

lemma count_update:
  "i < length xs \<Longrightarrow>
   length (filter P (xs[i := y]))
     = length (filter P xs) - (if P (xs ! i) then 1 else 0) + (if P y then 1 else 0)"
proof (induction xs arbitrary: i)
  case Nil
  then show ?case by simp
next
  case (Cons x xs)
  show ?case
  proof (cases i)
    case 0
    then show ?thesis by simp
  next
    case (Suc j)
    with Cons.prems have j: "j < length xs" by simp
    have pos: "P (xs ! j) \<Longrightarrow> 0 < length (filter P xs)"
      using j by (metis filter_empty_conv length_greater_0_conv nth_mem)
    from Cons.IH[OF j] Suc pos show ?thesis by auto
  qed
qed

lemma gate_inv_step:
  assumes "gate_inv st" and "fetcher_step source ev st = Some st'"
  shows "gate_inv st'"
proof (cases ev)
  case (Write ps)
  with assms show ?thesis
    by (auto simp: gate_inv_def outstanding_def split: if_splits)
next
  case (Acquired i)
  with assms show ?thesis
    by (auto simp: gate_inv_def outstanding_def sem_acquire_def sem_release_def settle_def
        count_update Let_def split: if_splits option.splits sum.splits)
next
  case (Responded i)
  with assms show ?thesis
    by (auto simp: gate_inv_def outstanding_def sem_release_def settle_def
        count_update Let_def split: if_splits option.splits sum.splits prod.splits
        phase.splits)
next
  case CloseWritable
  with assms show ?thesis by (auto simp: gate_inv_def outstanding_def)
qed

lemma gate_inv_run:
  "gate_inv st \<Longrightarrow> fetcher_run source evs st = Some st' \<Longrightarrow> gate_inv st'"
  by (induction evs arbitrary: st) (auto split: option.splits dest: gate_inv_step)

lemma gate_inv_init: "gate_inv fetcher_init"
  by (simp add: gate_inv_def fetcher_init_def sem_def outstanding_def)

lemma calls_nonempty_step:
  assumes inv: "\<forall>c \<in> set (calls st). fst c \<noteq> []"
    and step: "fetcher_step source ev st = Some st'"
  shows "\<forall>c \<in> set (calls st'). fst c \<noteq> []"
proof -
  have upd: "\<forall>c \<in> set ((calls st)[i := (fst (calls st ! i), ph)]). fst c \<noteq> []"
    if "i < length (calls st)" for i ph
  proof
    fix c assume "c \<in> set ((calls st)[i := (fst (calls st ! i), ph)])"
    then have "c = (fst (calls st ! i), ph) \<or> c \<in> set (calls st)"
      using set_update_subset_insert by fastforce
    moreover have "calls st ! i \<in> set (calls st)" using that by simp
    ultimately show "fst c \<noteq> []" using inv by auto
  qed
  show ?thesis
  proof (cases ev)
    case (Write ps)
    with inv step show ?thesis by (auto split: if_splits)
  next
    case (Acquired i)
    with step have i: "i < length (calls st)" by (simp split: if_splits)
    from step Acquired i obtain ph where "calls st' = (calls st)[i := (fst (calls st ! i), ph)]"
      by (auto simp: settle_def Let_def split: if_splits option.splits sum.splits)
    with upd[OF i] show ?thesis by simp
  next
    case (Responded i)
    with step have i: "i < length (calls st)" by (simp split: if_splits)
    from step Responded i obtain ph where "calls st' = (calls st)[i := (fst (calls st ! i), ph)]"
      by (cases "calls st ! i")
         (auto simp: settle_def Let_def split: if_splits sum.splits phase.splits)
    with upd[OF i] show ?thesis by simp
  next
    case CloseWritable
    with inv step show ?thesis by auto
  qed
qed

lemma calls_nonempty_run:
  "\<forall>c \<in> set (calls st). fst c \<noteq> [] \<Longrightarrow> fetcher_run source evs st = Some st' \<Longrightarrow>
   \<forall>c \<in> set (calls st'). fst c \<noteq> []"
proof (induction evs arbitrary: st)
  case Nil
  then show ?case by simp
next
  case (Cons ev evs)
  then obtain st1 where s1: "fetcher_step source ev st = Some st1"
    and r: "fetcher_run source evs st1 = Some st'"
    by (auto split: option.splits)
  from calls_nonempty_step[OF Cons.prems(1) s1] Cons.IH r show ?case by blast
qed

section \<open>The locator on a record that lies in two chunks\<close>

lemma locator_range_error:
  assumes sv: "serves source data"
    and long: "102400 \<le> length data"
    and lo: "length data - 102400 \<le> e" and hi: "e + 4 \<le> length data - 51200"
    and sig: "le_nat (take 4 (drop e data)) = SIGNATURE_CENTRAL_DIRECTORY_END"
    and cross: "length data - 51200 < e + 20"
    and after: "no_signature (take (length data - 51200 - (e + 1)) (drop (e + 1) data))"
    and tail: "no_signature (drop (length data - 51200) data)"
  shows "streamCentralDirectory (Suc (Suc fuel)) source = Some (Inl RangeError)"
proof -
  define L where "L = length data"
  have len: "source_length source = L" using sv by (simp add: serves_def L_def)
  \<comment> \<open>first iteration: the last 51200 bytes\<close>
  have "L - 51200 < L" and "L \<le> length data" using long by (simp_all add: L_def)
  from serves_slice[OF sv this] obtain s1 where
    s1: "streamBytes source (int (L - 51200)) (int L - 1) = Inr s1"
    and c1': "concat s1 = take (L - (L - 51200)) (drop (L - 51200) data)"
    by blast
  have c1: "concat s1 = drop (L - 51200) data" using c1' by (simp add: L_def)
  have l1: "length (concat s1) = 51200" using c1 long by (simp add: L_def)
  have scan1: "streamCentralDirectory_scan source (concat s1) cd (int (L - 51200))
                 (int (length (concat s1)) - 4) = Inr None" for cd
    by (rule scan_no_signature) (use tail c1 in \<open>simp_all add: L_def\<close>)
  \<comment> \<open>second iteration: the 51200 bytes before them\<close>
  have "L - 102400 < L - 51200" and "L - 51200 \<le> length data"
    using long by (simp_all add: L_def)
  from serves_slice[OF sv this] obtain s2 where
    s2: "streamBytes source (int (L - 102400)) (int (L - 51200) - 1) = Inr s2"
    and c2': "concat s2 = take (L - 51200 - (L - 102400)) (drop (L - 102400) data)"
    by blast
  have "L - 51200 - (L - 102400) = 51200" using long by (simp add: L_def)
  with c2' have c2: "concat s2 = take 51200 (drop (L - 102400) data)" by simp
  have l2: "length (concat s2) = 51200" using c2 long by (simp add: L_def)
  define k where "k = e - (L - 102400)"
  have ke: "e = L - 102400 + k" using lo by (simp add: k_def L_def)
  have k4: "k + 4 \<le> 51200" using hi long ke by (simp add: L_def)
  have k20: "51200 < k + 20" using cross long ke by (simp add: L_def)
  have win: "le_nat (take 4 (drop k (concat s2))) = SIGNATURE_CENTRAL_DIRECTORY_END"
  proof -
    have "take 4 (drop k (take 51200 (drop (L - 102400) data))) = take 4 (drop e data)"
      using k4 by (simp add: ke drop_take add.commute min_def)
    with sig show ?thesis by (simp add: c2)
  qed
  have "drop (k + 1) (concat s2) = take (L - 51200 - (e + 1)) (drop (e + 1) data)"
    using k4 long by (simp add: c2 ke drop_take add.commute add.left_commute L_def)
  with after have above: "no_signature (drop (nat (int k) + 1) (concat s2))"
    by (simp add: L_def)
  have scan2: "streamCentralDirectory_scan source (concat s2) cd (int (L - 102400))
                 (int (length (concat s2)) - 4)
               = await (streamCentralDirectory_found source (concat s2) cd
                          (int (L - 102400)) (int k)) (\<lambda>s. Inr (Some s))" for cd
    by (rule scan_finds) (use win above k4 l2 in simp_all)
  have found: "streamCentralDirectory_found source (concat s2)
                 (concatUint8Array [concat s2, concatUint8Array [concat s1, []]])
                 (int (L - 102400)) (int k) = Inl RangeError"
    using k4 k20 l1 l2
    by (simp add: streamCentralDirectory_found_def concatUint8Array_def getUint32_def)
  have cs1: "max 0 (int L - CENTRAL_DIRECTORY_END_SCAN_CHUNK_SIZE) = int (L - 51200)"
    and ce1: "min (int (L - 51200) + CENTRAL_DIRECTORY_END_SCAN_CHUNK_SIZE - 1) (int L - 1)
                = int L - 1"
    and cs2: "max 0 (int (L - 51200) - CENTRAL_DIRECTORY_END_SCAN_CHUNK_SIZE)
                = int (L - 102400)"
    and ce2: "min (int (L - 102400) + CENTRAL_DIRECTORY_END_SCAN_CHUNK_SIZE - 1) (int L - 1)
                = int (L - 51200) - 1"
    using long by (simp_all add: CENTRAL_DIRECTORY_END_SCAN_CHUNK_SIZE_def L_def)
  have it2: "streamCentralDirectory_loop (Suc fuel) source (concatUint8Array [concat s1, []])
               (int (L - 51200)) = Some (Inl RangeError)"
    by (subst streamCentralDirectory_loop.simps(2))
       (simp add: Let_def len cs2 ce2 s2 readBytes_def concatBytesStream_def scan2 found
          del: streamCentralDirectory_loop.simps)
  show ?thesis
    unfolding streamCentralDirectory_def
    by (subst streamCentralDirectory_loop.simps(2))
       (simp add: Let_def len cs1 ce1 s1 readBytes_def concatBytesStream_def scan1 it2
          del: streamCentralDirectory_loop.simps)
qed

section \<open>The selective path on a well-formed archive\<close>

subsection \<open>Locating the central directory\<close>

lemma take_drop_append_drop:
  "a \<le> b \<Longrightarrow> take (b - a) (drop a d) @ drop b d = drop a d"
proof -
  assume "a \<le> b"
  then have "drop b d = drop (b - a) (drop a d)" by simp
  then show ?thesis by (simp only: append_take_drop_id)
qed

lemma locator_finds_record_in_last_chunk:
  assumes sv: "serves source data"
    and inside: "e + 22 \<le> length data"
    and sig: "signature_at (drop e data) = SIGNATURE_CENTRAL_DIRECTORY_END"
    and after: "no_signature (drop (e + 1) data)"
    and near: "length data \<le> e + 51200"
  shows "\<exists>t. streamCentralDirectory (Suc fuel) source = Some (Inr t)
             \<and> concat t = drop (u32 (drop e data) 16) data"
proof -
  define L where "L = length data"
  define cs where "cs = L - 51200"
  define dirStart where "dirStart = u32 (drop e data) 16"
  have len: "source_length source = L" using sv by (simp add: serves_def L_def)
  have csL: "cs < L" and cse: "cs \<le> e" using inside near by (simp_all add: cs_def L_def)
  have start: "max 0 (int L - CENTRAL_DIRECTORY_END_SCAN_CHUNK_SIZE) = int cs"
    by (simp add: cs_def CENTRAL_DIRECTORY_END_SCAN_CHUNK_SIZE_def)
  have stop: "min (int cs + CENTRAL_DIRECTORY_END_SCAN_CHUNK_SIZE - 1) (int L - 1) = int L - 1"
    by (simp add: cs_def CENTRAL_DIRECTORY_END_SCAN_CHUNK_SIZE_def)
  have "L \<le> length data" by (simp add: L_def)
  from serves_slice[OF sv csL this] obtain s1 where
    s1: "streamBytes source (int cs) (int L - 1) = Inr s1"
    and c1': "concat s1 = take (L - cs) (drop cs data)" by blast
  have c1: "concat s1 = drop cs data" using c1' by (simp add: L_def)
  have l1: "length (concat s1) = L - cs" by (simp add: c1 L_def)
  define k where "k = e - cs"
  have ke: "e = cs + k" using cse by (simp add: k_def)
  have win: "le_nat (take 4 (drop (nat (int k)) (concat s1))) = SIGNATURE_CENTRAL_DIRECTORY_END"
    using sig inside by (simp add: c1 ke signature_at_inside add.commute)
  have above: "no_signature (drop (nat (int k) + 1) (concat s1))"
    using after by (simp add: c1 ke add.commute add.left_commute)
  have top: "int k \<le> int (length (concat s1)) - 4"
    using inside csL by (simp add: l1 ke L_def)
  have scan: "streamCentralDirectory_scan source (concat s1) cd (int cs)
                (int (length (concat s1)) - 4)
              = await (streamCentralDirectory_found source (concat s1) cd (int cs) (int k))
                  (\<lambda>s. Inr (Some s))" for cd
    by (rule scan_finds[OF _ win above _ order_refl, THEN trans, OF _ _ refl]) (use top in simp_all)
  have field: "getUint32 (concat s1) (int k + 12 + 4) = Inr dirStart"
  proof -
    have "drop (nat (int k + 12 + 4)) (concat s1) = drop 16 (drop e data)"
      by (simp add: c1 ke nat_add_distrib ac_simps)
    moreover have "int k + 12 + 4 + 4 \<le> int (length (concat s1))"
      using inside csL by (simp add: l1 ke L_def)
    ultimately show ?thesis
      by (simp add: getUint32_def dirStart_def u32_def)
  qed
  have field': "getUint32 (concat s1) (16 + int k) = Inr dirStart"
    using field by (simp add: ac_simps)
  have enough: "\<not> int (length (concatUint8Array [concat s1, []])) < int k + 12 + 4 + 4"
    using inside csL by (simp add: concatUint8Array_def l1 ke L_def)
  obtain t where found: "streamCentralDirectory_found source (concat s1)
        (concatUint8Array [concat s1, []]) (int cs) (int k) = Inr t"
    and ct: "concat t = drop dirStart data"
  proof (cases "dirStart < cs")
    case True
    have "cs \<le> length data" using csL by (simp add: L_def)
    from serves_slice[OF sv True this] obtain sm where
      sm: "streamBytes source (int dirStart) (int cs - 1) = Inr sm"
      and cm: "concat sm = take (cs - dirStart) (drop dirStart data)" by blast
    have "take (cs - dirStart) (drop dirStart data) @ drop cs data = drop dirStart data"
      using True by (intro take_drop_append_drop) simp
    then have "concat (blob_stream (concatUint8Array
                 [concatBytesStream sm, concatUint8Array [concat s1, []]]))
               = drop dirStart data"
      by (simp add: concatUint8Array_def concatBytesStream_def cm c1)
    moreover have "streamCentralDirectory_found source (concat s1)
        (concatUint8Array [concat s1, []]) (int cs) (int k)
      = Inr (blob_stream (concatUint8Array
               [concatBytesStream sm, concatUint8Array [concat s1, []]]))"
      unfolding streamCentralDirectory_found_def Let_def
      using True enough by (simp add: field' sm readBytes_def)
    ultimately show ?thesis using that by blast
  next
    case False
    have "concat (blob_stream (drop (dirStart - cs) (concatUint8Array [concat s1, []])))
            = drop dirStart data"
      using False by (simp add: concatUint8Array_def c1)
    moreover have "streamCentralDirectory_found source (concat s1)
        (concatUint8Array [concat s1, []]) (int cs) (int k)
      = Inr (blob_stream (drop (dirStart - cs) (concatUint8Array [concat s1, []])))"
      unfolding streamCentralDirectory_found_def Let_def
      using False enough
      by (cases "dirStart = cs") (simp_all add: field' nat_diff_distrib')
    ultimately show ?thesis using that by blast
  qed
  have "streamCentralDirectory (Suc fuel) source = Some (Inr t)"
    unfolding streamCentralDirectory_def
    by (subst streamCentralDirectory_loop.simps(2))
       (simp add: Let_def len start stop s1 readBytes_def concatBytesStream_def scan found
          del: streamCentralDirectory_loop.simps)
  with ct show ?thesis by (auto simp: dirStart_def)
qed

lemma no_signature_drop:
  "no_signature data \<Longrightarrow> no_signature (drop m data)"
  using no_signature_slice[of data "length data" m] by simp

lemma locator_finds_record_in_chunk_before:
  assumes sv: "serves source data"
    and inside: "e + 22 \<le> length data"
    and sig: "signature_at (drop e data) = SIGNATURE_CENTRAL_DIRECTORY_END"
    and after: "no_signature (drop (e + 1) data)"
    and far: "e + 51200 < length data"
    and low: "length data - 102400 \<le> e"
    and fits: "e + 20 \<le> length data - 102400 + 51200"
    and dir: "u32 (drop e data) 16 \<le> e"
  shows "\<exists>t. streamCentralDirectory (Suc (Suc fuel)) source = Some (Inr t)
             \<and> take (e + 4 - u32 (drop e data) 16) (concat t)
                 = take (e + 4 - u32 (drop e data) 16) (drop (u32 (drop e data) 16) data)"
proof -
  define L where "L = length data"
  define c1 where "c1 = L - 51200"
  define c2 where "c2 = L - 102400"
  define dirStart where "dirStart = u32 (drop e data) 16"
  define n where "n = e + 4 - dirStart"
  have len: "source_length source = L" using sv by (simp add: serves_def L_def)
  have c1L: "c1 < L" and ec1: "e < c1" using far by (simp_all add: c1_def L_def)
  have c2e: "c2 \<le> e" using low by (simp add: c2_def L_def)
  have fit: "e + 20 \<le> c2 + 51200" using fits by (simp add: c2_def L_def)
  have c2L: "c2 + 51200 \<le> L" using far by (simp add: c2_def L_def)
  have c21: "c2 + 51200 \<le> c1 \<or> c2 = 0" by (auto simp: c1_def c2_def)
  have dle: "dirStart \<le> e" using dir by (simp add: dirStart_def)
  \<comment> \<open>the first chunk\<close>
  have start1: "max 0 (int L - CENTRAL_DIRECTORY_END_SCAN_CHUNK_SIZE) = int c1"
    using far by (simp add: c1_def L_def CENTRAL_DIRECTORY_END_SCAN_CHUNK_SIZE_def)
  have stop1: "min (int c1 + CENTRAL_DIRECTORY_END_SCAN_CHUNK_SIZE - 1) (int L - 1) = int L - 1"
    by (simp add: c1_def CENTRAL_DIRECTORY_END_SCAN_CHUNK_SIZE_def)
  have "L \<le> length data" by (simp add: L_def)
  from serves_slice[OF sv c1L this] obtain s1 where
    s1: "streamBytes source (int c1) (int L - 1) = Inr s1"
    and cs1': "concat s1 = take (L - c1) (drop c1 data)" by blast
  have cs1: "concat s1 = drop c1 data" using cs1' by (simp add: L_def)
  have "drop c1 data = drop (c1 - (e + 1)) (drop (e + 1) data)" using ec1 by simp
  with no_signature_drop[OF after, of "c1 - (e + 1)"] have ns1: "no_signature (concat s1)"
    by (simp add: cs1)
  have scan1: "streamCentralDirectory_scan source (concat s1) cd (int c1)
                 (int (length (concat s1)) - 4) = Inr None" for cd
    by (rule scan_no_signature[OF ns1]) simp
  \<comment> \<open>the chunk before\<close>
  have start2: "max 0 (int c1 - CENTRAL_DIRECTORY_END_SCAN_CHUNK_SIZE) = int c2"
    by (auto simp: c1_def c2_def CENTRAL_DIRECTORY_END_SCAN_CHUNK_SIZE_def)
  have stop2: "min (int c2 + CENTRAL_DIRECTORY_END_SCAN_CHUNK_SIZE - 1) (int L - 1)
                 = int (c2 + 51200) - 1"
    using c2L by (simp add: CENTRAL_DIRECTORY_END_SCAN_CHUNK_SIZE_def)
  have "c2 < c2 + 51200" by simp
  from serves_slice[OF sv this] c2L obtain s2 where
    s2: "streamBytes source (int c2) (int (c2 + 51200) - 1) = Inr s2"
    and cs2': "concat s2 = take (c2 + 51200 - c2) (drop c2 data)" by (auto simp: L_def)
  have cs2: "concat s2 = take 51200 (drop c2 data)" using cs2' by simp
  have s2': "streamBytes source (int c2) (51199 + int c2) = Inr s2"
    using s2 by (simp add: ac_simps)
  have l2: "length (concat s2) = 51200" using c2L by (simp add: cs2 L_def)
  define k where "k = e - c2"
  have ke: "e = c2 + k" using c2e by (simp add: k_def)
  have k20: "k + 20 \<le> 51200" using fit by (simp add: ke)
  have win: "le_nat (take 4 (drop (nat (int k)) (concat s2))) = SIGNATURE_CENTRAL_DIRECTORY_END"
  proof -
    have "take 4 (drop k (take 51200 (drop c2 data))) = take 4 (drop k (drop c2 data))"
      using k20 by (intro take_drop_take) simp
    with sig inside show ?thesis by (simp add: cs2 ke signature_at_inside add.commute)
  qed
  have above: "no_signature (drop (nat (int k) + 1) (concat s2))"
  proof -
    have "drop (k + 1) (take 51200 (drop c2 data))
            = take (51200 - (k + 1)) (drop 0 (drop (e + 1) data))"
      by (simp add: drop_take ke ac_simps)
    with no_signature_slice[OF after, of "51200 - (k + 1)" 0] show ?thesis
      by (simp add: cs2)
  qed
  have top: "int k \<le> int (length (concat s2)) - 4" using k20 by (simp add: l2)
  have scan2: "streamCentralDirectory_scan source (concat s2) cd (int c2)
                (int (length (concat s2)) - 4)
              = await (streamCentralDirectory_found source (concat s2) cd (int c2) (int k))
                  (\<lambda>s. Inr (Some s))" for cd
    by (rule scan_finds[OF _ win above _ order_refl, THEN trans, OF _ _ refl]) (use top in simp_all)
  have field: "getUint32 (concat s2) (16 + int k) = Inr dirStart"
  proof -
    have "take 4 (drop (k + 16) (take 51200 (drop c2 data)))
            = take 4 (drop (k + 16) (drop c2 data))"
      using k20 by (intro take_drop_take) simp
    then have "take 4 (drop (nat (16 + int k)) (concat s2)) = take 4 (drop 16 (drop e data))"
      by (simp add: cs2 ke nat_add_distrib ac_simps)
    moreover have "16 + int k + 4 \<le> int (length (concat s2))" using k20 by (simp add: l2)
    ultimately show ?thesis by (simp add: getUint32_def dirStart_def u32_def)
  qed
  define acc where "acc = concatUint8Array [concat s2, concatUint8Array [concat s1, []]]"
  have acc: "acc = take 51200 (drop c2 data) @ drop c1 data"
    by (simp add: acc_def concatUint8Array_def cs1 cs2)
  have enough: "\<not> int (length acc) < int k + 12 + 4 + 4"
    using k20 c2L by (simp add: acc L_def)
  obtain t where found: "streamCentralDirectory_found source (concat s2) acc (int c2) (int k)
                           = Inr t"
    and ct: "take n (concat t) = take n (drop dirStart data)"
  proof (cases "dirStart < c2")
    case True
    then have "c2 \<noteq> 0" by simp
    with c21 have "c2 + 51200 \<le> c1" by simp
    moreover have "c1 \<le> c2 + 51200" by (simp add: c1_def c2_def)
    ultimately have c1eq: "c1 = c2 + 51200" by simp
    have "drop c1 data = drop 51200 (drop c2 data)" by (simp add: c1eq add.commute)
    then have whole: "acc = drop c2 data"
      by (simp only: acc append_take_drop_id)
    have "c2 \<le> length data" using c2L by (simp add: L_def)
    from serves_slice[OF sv True this] obtain sm where
      sm: "streamBytes source (int dirStart) (int c2 - 1) = Inr sm"
      and cm: "concat sm = take (c2 - dirStart) (drop dirStart data)" by blast
    have "take (c2 - dirStart) (drop dirStart data) @ drop c2 data = drop dirStart data"
      using True by (intro take_drop_append_drop) simp
    moreover have "concat (blob_stream (concatUint8Array [concatBytesStream sm, acc]))
               = concat sm @ acc"
      by (simp add: concatUint8Array_def concatBytesStream_def)
    ultimately have "concat (blob_stream (concatUint8Array [concatBytesStream sm, acc]))
               = drop dirStart data"
      by (simp add: whole cm)
    moreover have "streamCentralDirectory_found source (concat s2) acc (int c2) (int k)
      = Inr (blob_stream (concatUint8Array [concatBytesStream sm, acc]))"
      unfolding streamCentralDirectory_found_def Let_def
      using True enough by (simp add: field sm readBytes_def)
    ultimately show ?thesis using that by simp
  next
    case False
    have m: "dirStart - c2 \<le> 51200" using dle k20 by (simp add: ke)
    have "drop (dirStart - c2) acc
            = take (51200 - (dirStart - c2)) (drop dirStart data) @ drop c1 data"
      using False m c2L by (simp add: acc drop_take L_def)
    moreover have "n \<le> 51200 - (dirStart - c2)"
      using False dle k20 by (simp add: n_def ke)
    moreover have "n \<le> length (drop dirStart data)"
      using inside dle by (simp add: n_def)
    ultimately have "take n (concat (blob_stream (drop (dirStart - c2) acc)))
            = take n (drop dirStart data)"
      by simp
    moreover have "streamCentralDirectory_found source (concat s2) acc (int c2) (int k)
      = Inr (blob_stream (drop (dirStart - c2) acc))"
      unfolding streamCentralDirectory_found_def Let_def
      using False enough
      by (cases "dirStart = c2") (simp_all add: field nat_diff_distrib')
    ultimately show ?thesis using that by blast
  qed
  have step2: "streamCentralDirectory_loop (Suc fuel) source
                 (concatUint8Array [concat s1, []]) (int c1) = Some (Inr t)"
    by (subst streamCentralDirectory_loop.simps(2))
       (simp add: Let_def len start2 stop2 s2' readBytes_def concatBytesStream_def scan2
          found[unfolded acc_def] del: streamCentralDirectory_loop.simps)
  have "streamCentralDirectory (Suc (Suc fuel)) source = Some (Inr t)"
    unfolding streamCentralDirectory_def
    by (subst streamCentralDirectory_loop.simps(2))
       (simp add: Let_def len start1 stop1 s1 readBytes_def concatBytesStream_def scan1 step2
          del: streamCentralDirectory_loop.simps)
  with ct show ?thesis by (auto simp: dirStart_def n_def)
qed

lemma locator_finds_record:
  assumes sv: "serves source data"
    and inside: "e + 22 \<le> length data"
    and sig: "signature_at (drop e data) = SIGNATURE_CENTRAL_DIRECTORY_END"
    and loc: "locatable data e"
    and dir: "u32 (drop e data) 16 \<le> e"
  shows "\<exists>t. streamCentralDirectory (Suc (Suc fuel)) source = Some (Inr t)
             \<and> take (e + 4 - u32 (drop e data) 16) (concat t)
                 = take (e + 4 - u32 (drop e data) 16) (drop (u32 (drop e data) 16) data)"
proof -
  from loc have after: "no_signature (drop (e + 1) data)" by (simp add: locatable_def)
  show ?thesis
  proof (cases "length data \<le> e + 51200")
    case True
    from locator_finds_record_in_last_chunk[OF sv inside sig after True, of "Suc fuel"]
    show ?thesis by auto
  next
    case False
    with loc have "length data - 102400 \<le> e"
      and "e + 20 \<le> length data - 102400 + 51200"
      by (auto simp: locatable_def Let_def CENTRAL_DIRECTORY_END_SCAN_CHUNK_SIZE_def
          split: if_splits)
    with False show ?thesis
      by (intro locator_finds_record_in_chunk_before[OF sv inside sig after _ _ _ dir]) simp_all
  qed
qed

text \<open>The two ways in which a record can be located.\<close>

lemma locatable_in_last_chunk:
  assumes "no_signature (drop (e + 1) data)" and "length data \<le> e + 51200"
  shows "locatable data e"
  using assms by (simp add: locatable_def Let_def CENTRAL_DIRECTORY_END_SCAN_CHUNK_SIZE_def)

lemma locatable_in_chunk_before:
  assumes "no_signature (drop (e + 1) data)" and "102400 \<le> length data"
    and "length data - 102400 \<le> e" and "e + 20 \<le> length data - 51200"
  shows "locatable data e"
proof -
  from assms(2-4) have "int (length data) - 102400 \<le> int e"
    and "int e + 20 \<le> int (length data) - 51200" by linarith+
  with assms(1) show ?thesis
    by (simp add: locatable_def Let_def CENTRAL_DIRECTORY_END_SCAN_CHUNK_SIZE_def)
qed

subsection \<open>Decoding the central directory\<close>

lemma centralDirectoryEntries_run_step:
  assumes "content (readCentralDirectory pl s False) = Inr (Some c, d')"
  shows "\<exists>s'. concat s' = d'
     \<and> centralDirectoryEntries_run pl s
         = await (centralDirectoryEntries_run pl s') (\<lambda>es. Inr (c # es))"
proof -
  from content_InrD[OF assms] obtain s' where
    r: "readCentralDirectory pl s False = Inr (Some c, s')" and c: "concat s' = d'" by blast
  have "centralDirectoryEntries_run pl s
          = await (centralDirectoryEntries_run pl s') (\<lambda>es. Inr (c # es))"
    by (subst centralDirectoryEntries_run.simps) (simp add: r)
  with c show ?thesis by blast
qed

text \<open>The fields of a central directory record are read from its own bytes only.\<close>

lemma central_record_size_take:
  "42 \<le> k \<Longrightarrow> central_record_size (take k d) = central_record_size d"
  by (simp add: central_record_size_def zero_padded_take)

lemma central_entry_take:
  "central_record_size d \<le> k \<Longrightarrow> central_entry pl (take k d) = central_entry pl d"
  by (simp add: central_entry_def central_record_size_def Let_def zero_padded_take
      take_drop_take zero_padded_drop_take)

lemma central_entry_same_prefix:
  assumes "take k d = take k d'" and "central_record_size d' \<le> k"
  shows "central_entry pl d = central_entry pl d'"
    and "central_record_size d = central_record_size d'"
proof -
  have k42: "42 \<le> k" using assms(2) by (simp add: central_record_size_def Let_def)
  from central_record_size_take[OF k42, of d] central_record_size_take[OF k42, of d'] assms(1)
  show size: "central_record_size d = central_record_size d'" by simp
  with assms(2) have "central_record_size d \<le> k" by simp
  from central_entry_take[OF this, of pl] central_entry_take[OF assms(2), of pl] assms(1)
  show "central_entry pl d = central_entry pl d'" by simp
qed

lemma signature_at_same_prefix:
  assumes "take k d = take k d'" and "4 \<le> k"
  shows "signature_at d = signature_at d'"
  using signature_at_take[OF assms(2), of d] signature_at_take[OF assms(2), of d'] assms(1)
  by simp

lemma centralDirectoryEntries_run_centrals:
  "centrals_at pl data off cs \<Longrightarrow> take n (concat s) = take n (drop off data) \<Longrightarrow>
   sum_list (map central_size cs) \<le> n \<Longrightarrow>
   \<exists>s'. concat s' = drop (sum_list (map central_size cs)) (concat s)
        \<and> centralDirectoryEntries_run pl s
            = await (centralDirectoryEntries_run pl s') (\<lambda>es. Inr (cs @ es))"
proof (induction cs arbitrary: off s n)
  case Nil
  then show ?case by (auto simp: await_return)
next
  case (Cons c cs)
  from Cons.prems have at: "central_at pl data off c"
    and rest: "centrals_at pl data (off + central_size c) cs"
    and pre: "take n (concat s) = take n (drop off data)"
    and n: "central_size c + sum_list (map central_size cs) \<le> n" by simp_all
  note d = central_atD[OF at]
  have n4: "4 \<le> n" using n d(3) by simp
  have g: "signature_at (concat s) = SIGNATURE_CENTRAL_DIRECTORY_START"
    using signature_at_same_prefix[OF pre n4] d(1) by simp
  have "take (n - 4) (drop 4 (concat s)) = take (n - 4) (drop (off + 4) data)"
    using arg_cong[OF pre, of "drop 4"] by (simp add: drop_take add.commute)
  moreover have "central_record_size (drop (off + 4) data) \<le> n - 4" using n d(3) by simp
  ultimately have "central_entry pl (drop 4 (concat s)) = central_entry pl (drop (off + 4) data)"
    and "central_record_size (drop 4 (concat s)) = central_record_size (drop (off + 4) data)"
    by (rule central_entry_same_prefix)+
  then have ce: "central_entry pl (drop 4 (concat s)) = c"
    and cz: "central_record_size (drop 4 (concat s)) = central_size c - 4"
    using d(2,3) by simp_all
  have "content (readCentralDirectory pl s False)
          = Inr (Some c, drop (central_size c) (concat s))"
    using d(3) by (simp add: readCentralDirectory_False_content g ce cz add.commute)
  from centralDirectoryEntries_run_step[OF this] obtain s1 where
    c1: "concat s1 = drop (central_size c) (concat s)"
    and r1: "centralDirectoryEntries_run pl s
               = await (centralDirectoryEntries_run pl s1) (\<lambda>es. Inr (c # es))"
    by blast
  have pre1: "take (n - central_size c) (concat s1)
                = take (n - central_size c) (drop (off + central_size c) data)"
    using arg_cong[OF pre, of "drop (central_size c)"]
    by (simp add: c1 drop_take add.commute)
  have "sum_list (map central_size cs) \<le> n - central_size c" using n by simp
  from Cons.IH[OF rest pre1 this] obtain s' where
    c': "concat s' = drop (sum_list (map central_size cs)) (concat s1)"
    and r': "centralDirectoryEntries_run pl s1
              = await (centralDirectoryEntries_run pl s') (\<lambda>es. Inr (cs @ es))"
    by blast
  have "centralDirectoryEntries_run pl s
          = await (centralDirectoryEntries_run pl s') (\<lambda>es. Inr ((c # cs) @ es))"
    by (simp add: r1 r' await_assoc)
  with c' c1 show ?case by (auto simp: add.commute)
qed

lemma centralDirectoryEntries_run_stops:
  assumes "signature_at (concat s) = SIGNATURE_CENTRAL_DIRECTORY_END"
  shows "centralDirectoryEntries_run pl s = Inr []"
  by (subst centralDirectoryEntries_run.simps)
     (simp add: readCentralDirectory_False assms signatures_differ)

lemma end_at_offset_field:
  assumes "end_at pl data e eo"
  shows "centralDirectoryOffset eo = u32 (drop e data) 16" and "e + 22 \<le> length data"
proof -
  from end_atD(3)[OF assms] show inside: "e + 22 \<le> length data" by simp
  then have "zero_padded 18 (drop (e + 4) data) = take 18 (drop (e + 4) data)"
    by (intro zero_padded_inside) simp
  then have "u32 (zero_padded 18 (drop (e + 4) data)) 12 = u32 (drop e data) 16"
    by (simp add: u32_def drop_take add.commute)
  with end_atD(2)[OF assms] show "centralDirectoryOffset eo = u32 (drop e data) 16"
    by (simp add: end_entry_def Let_def)
qed

lemma u32_field_less:
  "u32 d off < 4294967296"
proof -
  have "u32 d off < 256 ^ length (take 4 (drop off d))"
    unfolding u32_def by (rule le_nat_less)
  also have "(256 :: nat) ^ length (take 4 (drop off d)) \<le> 256 ^ 4"
    by (intro power_increasing) simp_all
  finally show ?thesis by simp
qed

theorem centralDirectoryEntries_well_formed:
  assumes wf: "well_formed pl data fs cs eo"
    and loc: "locatable data (end_offset fs cs)"
    and sv: "serves source data"
  shows "centralDirectoryEntries (Suc (Suc fuel)) pl source = Some (Inr cs)"
proof -
  let ?B = "sum_list (map local_size fs)" and ?C = "sum_list (map central_size cs)"
  from wf have c: "centrals_at pl data ?B cs"
    and e: "end_at pl data (end_offset fs cs) eo"
    and o: "centralDirectoryOffset eo = ?B"
    by (simp_all add: well_formed_def)
  note f = end_at_offset_field[OF e]
  have field: "u32 (drop (end_offset fs cs) data) 16 = ?B" using f(1) o by simp
  then have "u32 (drop (end_offset fs cs) data) 16 \<le> end_offset fs cs"
    by (simp add: end_offset_def)
  from locator_finds_record[OF sv f(2) end_atD(1)[OF e] loc this, of fuel]
  obtain t where t: "streamCentralDirectory (Suc (Suc fuel)) source = Some (Inr t)"
    and ct: "take (?C + 4) (concat t) = take (?C + 4) (drop ?B data)"
    by (auto simp: field[unfolded end_offset_def] end_offset_def)
  have "?C \<le> ?C + 4" by simp
  from centralDirectoryEntries_run_centrals[OF c ct this] obtain s' where
    c': "concat s' = drop ?C (concat t)"
    and r: "centralDirectoryEntries_run pl t
              = await (centralDirectoryEntries_run pl s') (\<lambda>es. Inr (cs @ es))"
    by blast
  have "take 4 (concat s') = take 4 (drop (end_offset fs cs) data)"
    using arg_cong[OF ct, of "drop ?C"] by (simp add: c' drop_take end_offset_def add.commute)
  from signature_at_same_prefix[OF this]
  have "signature_at (concat s') = SIGNATURE_CENTRAL_DIRECTORY_END"
    by (simp add: end_atD(1)[OF e])
  then have "centralDirectoryEntries_run pl s' = Inr []"
    by (rule centralDirectoryEntries_run_stops)
  with r have "centralDirectoryEntries_run pl t = Inr cs" by simp
  with t show ?thesis by (simp add: centralDirectoryEntries_def)
qed

subsection \<open>Partitioning\<close>













lemma list_all2_filter_both:
  "list_all2 R xs ys \<Longrightarrow> (\<And>x y. R x y \<Longrightarrow> P x = Q y) \<Longrightarrow>
   list_all2 R (filter P xs) (filter Q ys)"
  by (induction rule: list_all2_induct) auto

subsection \<open>Fetching and extracting\<close>


lemma readFileEntry_at_end_of_range:
  assumes "length (concat t) \<le> 3"
  shows "\<exists>t'. readFileEntry pl t False = Inr (None, t')"
  using signature_at_short[OF assms] signatures_differ(7)
  by (simp add: readFileEntry_False)

lemma readFileEntry_from_range:
  assumes at: "local_at pl data off f"
    and t: "concat t = take (local_size f + r) (drop off data)"
  shows "\<exists>t'. readFileEntry pl t False = Inr (Some f, t')
              \<and> concat t' = take r (drop (off + local_size f) data)"
proof -
  note d = local_atD[OF at]
  let ?D = "drop off data" and ?n = "file_record_size (drop (off + 4) data)"
  have g: "signature_at (concat t) = SIGNATURE_FILE"
    using d(1) by (simp add: t signature_at_take local_size_def)
  have "drop 4 (concat t) = take (?n + r) (drop (off + 4) data)"
    by (simp add: t d(3) drop_take add.commute)
  moreover have "file_record pl (take (?n + r) (drop (off + 4) data))
      = Inr (Some f, drop ?n (take (?n + r) (drop (off + 4) data)))"
    by (simp add: file_record_take d(2))
  ultimately have "content (readFileEntry pl t False)
      = Inr (Some f, drop ?n (take (?n + r) (drop (off + 4) data)))"
    by (simp add: readFileEntry_False_content g)
  from content_InrD[OF this] obtain t' where "readFileEntry pl t False = Inr (Some f, t')"
    and "concat t' = drop ?n (take (?n + r) (drop (off + 4) data))" by blast
  moreover have "drop ?n (take (?n + r) (drop (off + 4) data))
                   = take r (drop (off + local_size f) data)"
    by (simp add: d(3) drop_take ac_simps)
  ultimately show ?thesis by auto
qed







text \<open>
  The bytes fetched behind a local record are harmless when they are fewer than four,
  or do not start with the signature of a local file record: the fetcher then reads no
  further record from them.
\<close>

lemma harmless_if:
  assumes "fileCommentLength c \<le> 1
           \<or> signature_at (drop (firstByteAt c + local_size f) data) \<noteq> SIGNATURE_FILE"
    and "fileCommentLength c < 10239"
  shows "harmless pl data f c"
proof -
  let ?d = "fetched_behind data f c"
  have "signature_at ?d \<noteq> SIGNATURE_FILE"
  proof (cases "fileCommentLength c \<le> 1")
    case True
    then have "length ?d \<le> 3" by (simp add: fetched_behind_def)
    from signature_at_short[OF this] signatures_differ(7) show ?thesis by simp
  next
    case False
    then have "4 \<le> fileCommentLength c + 2" by simp
    from signature_at_take[OF this] assms(1) False show ?thesis
      by (simp add: fetched_behind_def)
  qed
  then obtain t where "readFileEntry pl (blob_stream ?d) False = Inr (None, t)"
    by (simp add: readFileEntry_False)
  then have "fetchPartitionedEntries_pull pl [([c], blob_stream ?d)] = Inr []"
    by (subst fetchPartitionedEntries_pull.simps(2)) simp
  with assms(2) show ?thesis by (simp add: harmless_def default_maxGap_def)
qed

subsection \<open>The selective path on a well-formed archive\<close>




subsection \<open>The example archives are well-formed\<close>

lemmas decode_record =
  local_at_def central_at_def end_at_def readNextEntry_content signature_at_def
  file_record_def file_entry_def file_raw_def file_record_size_def
  central_entry_def central_record_size_def end_entry_def end_record_size_def
  u16_def u32_def zero_padded_def le_nat_def decodeText_def ascii_platform_def
  endsWith_def char_of_def bit_Suc_0_iff local_size_def central_size_def Let_def
  SIGNATURE_FILE_def SIGNATURE_CENTRAL_DIRECTORY_START_def
  SIGNATURE_CENTRAL_DIRECTORY_END_def FILE_HEADER_SIZE_def

lemma sample_locals:
  "local_at ascii_platform sample_archive 0 file_a"
  "local_at ascii_platform sample_archive 45 file_dir"
  "local_at ascii_platform sample_archive 79 file_b"
  by (simp_all add: decode_record sample_archive_def file_a_def file_dir_def file_b_def)

lemma sample_centrals:
  "central_at ascii_platform sample_archive 138 entry_a"
  "central_at ascii_platform sample_archive 189 entry_dir"
  "central_at ascii_platform sample_archive 239 entry_b"
  by (simp_all add: decode_record sample_archive_def entry_a_def entry_dir_def entry_b_def)

lemma sample_end_at: "end_at ascii_platform sample_archive 294 sample_end"
  by (simp add: decode_record sample_archive_def sample_end_def)

lemma sample_well_formed:
  "well_formed ascii_platform sample_archive [file_a, file_dir, file_b]
     [entry_a, entry_dir, entry_b] sample_end"
proof -
  have sizes: "local_size file_a = 45" "local_size file_dir = 34" "local_size file_b = 59"
    "central_size entry_a = 51" "central_size entry_dir = 50" "central_size entry_b = 55"
    by (simp_all add: local_size_def central_size_def file_a_def file_dir_def file_b_def
        entry_a_def entry_dir_def entry_b_def)
  have "describes 0 [file_a, file_dir, file_b] [entry_a, entry_dir, entry_b]"
    by (simp add: local_size_def agrees_def file_a_def file_dir_def file_b_def
        entry_a_def entry_dir_def entry_b_def)
  moreover have "centralDirectoryOffset sample_end = 138" by (simp add: sample_end_def)
  ultimately show ?thesis
    using sample_locals sample_centrals sample_end_at
    by (simp add: well_formed_def end_offset_def sizes)
qed

lemma sample_end_offset:
  "end_offset [file_a, file_dir, file_b] [entry_a, entry_dir, entry_b] = 294"
  by (simp add: end_offset_def local_size_def central_size_def file_a_def file_dir_def
      file_b_def entry_a_def entry_dir_def entry_b_def)

lemma sample_locatable: "locatable sample_archive 294"
proof -
  have "no_signature (drop (294 + 1) sample_archive)"
    by (rule no_signature_without_80) (simp add: sample_archive_def)
  moreover have "length sample_archive = 316" by (simp add: sample_archive_def)
  ultimately show ?thesis
    by (simp add: locatable_def Let_def CENTRAL_DIRECTORY_END_SCAN_CHUNK_SIZE_def)
qed






text \<open>
  One JavaScript predicate can decide differently on the two kinds of record: the
  predicate \<^verbatim>\<open>({ signature }) => signature === SIGNATURE_FILE\<close> keeps every file entry
  of the sequential path and no central directory entry of the selective path.
\<close>

lemma signature_predicate_selects_differently:
  "readEntireZip ascii_platform (blob_stream sample_archive)
       (\<lambda>entry. FileEntry.signature entry = SIGNATURE_FILE)
     = Inr [file_a, file_dir, file_b]
   \<and> iterateZipFiles2 (Suc (Suc 0)) ascii_platform (memorySource sample_archive)
       (\<lambda>entry. signature entry = SIGNATURE_FILE) id
     = Some (Inr [])"
proof -
  have "readEntireZip ascii_platform (blob_stream sample_archive)
          (\<lambda>entry. FileEntry.signature entry = SIGNATURE_FILE)
        = Inr (filter (\<lambda>entry. FileEntry.signature entry = SIGNATURE_FILE)
                 [file_a, file_dir, file_b])"
    by (rule readEntireZip_well_formed[OF sample_well_formed]) simp
  then have sequential: "readEntireZip ascii_platform (blob_stream sample_archive)
          (\<lambda>entry. FileEntry.signature entry = SIGNATURE_FILE)
        = Inr [file_a, file_dir, file_b]"
    by (simp add: file_a_def file_dir_def file_b_def)
  have "centralDirectoryEntries (Suc (Suc 0)) ascii_platform (memorySource sample_archive)
          = Some (Inr [entry_a, entry_dir, entry_b])"
    by (rule centralDirectoryEntries_well_formed[OF sample_well_formed _ serves_memorySource])
       (simp add: sample_end_offset sample_locatable)
  then have "iterateZipFiles2 (Suc (Suc 0)) ascii_platform (memorySource sample_archive)
       (\<lambda>entry. signature entry = SIGNATURE_FILE) id = Some (Inr [])"
    by (simp add: iterateZipFiles2_def filterStream_def entry_a_def entry_dir_def entry_b_def
        SIGNATURE_FILE_def SIGNATURE_CENTRAL_DIRECTORY_START_def partitionNearbyEntries_def
        partition_init_def partition_flush_def)
  with sequential show ?thesis by simp
qed






text \<open>
  The straddling archive is well-formed and the signature of its
  end-of-central-directory record does not occur again behind the record, but the first
  20 bytes of the record lie in two chunks of the scan: sequential decoding yields the
  file, while the locator throws a \<^verbatim>\<open>RangeError\<close> and selective decoding produces no
  file, whatever the predicate.
\<close>

lemma straddling_well_formed:
  "well_formed ascii_platform straddling_archive [straddling_file] [straddling_entry]
     straddling_end"
proof -
  have sizes: "local_size straddling_file = 51141" "central_size straddling_entry = 47"
    by (simp_all add: local_size_def central_size_def straddling_file_def
        straddling_entry_def)
  have "local_at ascii_platform straddling_archive 0 straddling_file"
    by (simp add: decode_record straddling_archive_def straddling_file_def)
  moreover have "central_at ascii_platform straddling_archive 51141 straddling_entry"
    by (simp add: decode_record straddling_archive_def straddling_entry_def)
  moreover have "end_at ascii_platform straddling_archive 51188 straddling_end"
    by (simp add: decode_record straddling_archive_def straddling_end_def)
  moreover have "describes 0 [straddling_file] [straddling_entry]"
    by (simp add: local_size_def agrees_def straddling_file_def straddling_entry_def)
  moreover have "centralDirectoryOffset straddling_end = 51141"
    by (simp add: straddling_end_def)
  ultimately show ?thesis by (simp add: well_formed_def end_offset_def sizes)
qed

lemma straddling_sequential:
  "readEntireZip ascii_platform (blob_stream straddling_archive) predicate_file
     = Inr [straddling_file]"
proof -
  have "readEntireZip ascii_platform (blob_stream straddling_archive) predicate_file
          = Inr (filter predicate_file [straddling_file])"
    by (rule readEntireZip_well_formed[OF straddling_well_formed]) simp
  then show ?thesis by (simp add: predicate_file_def straddling_file_def)
qed

lemma straddling_single_signature:
  "no_signature (drop (51188 + 1) straddling_archive)"
  by (rule no_signature_without_80) (simp add: straddling_archive_def)

lemma straddling_not_locatable:
  "\<not> locatable straddling_archive (end_offset [straddling_file] [straddling_entry])"
  by (simp add: locatable_def Let_def straddling_len end_offset_def local_size_def
      central_size_def straddling_file_def straddling_entry_def
      CENTRAL_DIRECTORY_END_SCAN_CHUNK_SIZE_def)

lemma straddling_selective:
  "iterateZipFiles2 (Suc (Suc fuel)) pl (memorySource straddling_archive) keep completion
     = Some (Inr [])"
proof -
  have sv: "serves (memorySource straddling_archive) straddling_archive"
    by (rule serves_memorySource)
  have sig: "le_nat (take 4 (drop 51188 straddling_archive)) = SIGNATURE_CENTRAL_DIRECTORY_END"
    by (simp add: straddling_at le_nat_def SIGNATURE_CENTRAL_DIRECTORY_END_def)
  have after: "no_signature (take (length straddling_archive - 51200 - (51188 + 1))
                 (drop (51188 + 1) straddling_archive))"
    by (rule no_signature_without_80) (simp add: straddling_len straddling_after)
  have tail: "no_signature (drop (length straddling_archive - 51200) straddling_archive)"
    by (rule no_signature_without_80) (simp add: straddling_len straddling_tail)
  have "streamCentralDirectory (Suc (Suc fuel)) (memorySource straddling_archive)
          = Some (Inl RangeError)"
    by (rule locator_range_error[OF sv _ _ _ sig _ after tail])
       (simp_all add: straddling_len)
  then show ?thesis by (simp add: iterateZipFiles2_def centralDirectoryEntries_def)
qed

text \<open>
  A file comment of 10239 bytes or more makes the partitioner put the next selected
  record into the same partition, since the next local record does not start behind
  \<open>lastByteAt + maxGap\<close>. In the merged archive one range request, for the bytes 0 to
  94, serves the records of \<^verbatim>\<open>a\<close> and \<^verbatim>\<open>b\<close>; the file comment of \<^verbatim>\<open>b\<close> makes it reach 31
  bytes into the local record of \<^verbatim>\<open>ab\<close>, which the fetcher decodes as a file entry named
  \<^verbatim>\<open>a\<close>, one of the two names requested, and emits. Had each record a request of its
  own, nothing would be extracted from the bytes behind its local record.
\<close>

lemma merged_locals:
  "local_at ascii_platform merged_archive 0 merged_a"
  "local_at ascii_platform merged_archive 32 merged_b"
  "local_at ascii_platform merged_archive 64 merged_ab"
  by (simp_all add: decode_record merged_archive_def merged_a_def merged_b_def merged_ab_def)

lemma merged_sizes:
  "local_size merged_a = 32" "local_size merged_b = 32" "local_size merged_ab = 33"
  "central_size merged_entry_a = 10286" "central_size merged_entry_b = 76"
  "central_size merged_entry_ab = 48"
  by (simp_all add: local_size_def central_size_def merged_a_def merged_b_def merged_ab_def
      merged_entry_a_def merged_entry_b_def merged_entry_ab_def)




lemma merged_names:
  "fileName merged_entry_a = ''a''" "fileName merged_entry_b = ''b''"
  "fileName merged_entry_ab = ''ab''" "FileEntry.fileName merged_a = ''a''"
  "FileEntry.fileName merged_b = ''b''" "FileEntry.fileName merged_ab = ''ab''"
  "FileEntry.fileName merged_cut = ''a''"
  by (simp_all add: merged_entry_a_def merged_entry_b_def merged_entry_ab_def merged_a_def
      merged_b_def merged_ab_def merged_cut_def)

lemma merged_cut_decoded:
  assumes "concat t = take 31 (drop 64 merged_archive)"
  shows "\<exists>t'. readFileEntry ascii_platform t False = Inr (Some merged_cut, t')
              \<and> concat t' = []"
proof -
  have "content (readFileEntry ascii_platform t False) = Inr (Some merged_cut, [])"
    by (simp add: readFileEntry_False_content assms decode_record merged_archive_def
        merged_cut_def)
  from content_InrD[OF this] show ?thesis by blast
qed

lemma pull_exhausted:
  assumes "concat t = []"
  shows "fetchPartitionedEntries_pull pl ((zs, t) # q) = fetchPartitionedEntries_pull pl q"
proof -
  have "length (concat t) \<le> 3" unfolding assms by simp
  from readFileEntry_at_end_of_range[OF this] obtain t' where
    "readFileEntry pl t False = Inr (None, t')" by blast
  then show ?thesis by (subst fetchPartitionedEntries_pull.simps(2)) simp
qed



lemma merged_decoding_harmless:
  "fetchPartitionedEntries_pull ascii_platform
     [([merged_entry_a], blob_stream (fetched_behind merged_archive merged_a merged_entry_a))]
     = Inr []"
  "fetchPartitionedEntries_pull ascii_platform
     [([merged_entry_b], blob_stream (fetched_behind merged_archive merged_b merged_entry_b))]
     = Inr []"
  "fetchPartitionedEntries_pull ascii_platform
     [([merged_entry_ab],
       blob_stream (fetched_behind merged_archive merged_ab merged_entry_ab))]
     = Inr []"
proof -
  let ?pl = ascii_platform
  have fa: "fetched_behind merged_archive merged_a merged_entry_a
              = take (local_size merged_b + 10209) (drop 32 merged_archive)"
    and fb: "fetched_behind merged_archive merged_b merged_entry_b
              = take 31 (drop 64 merged_archive)"
    by (simp_all add: fetched_behind_def merged_sizes merged_entry_a_def merged_entry_b_def)
  \<comment> \<open>behind \<^verbatim>\<open>a\<close>: the records of \<^verbatim>\<open>b\<close> and \<^verbatim>\<open>ab\<close>, then the central directory\<close>
  have "concat (blob_stream (fetched_behind merged_archive merged_a merged_entry_a))
          = take (local_size merged_b + 10209) (drop 32 merged_archive)"
    by (simp add: fa)
  from readFileEntry_from_range[OF merged_locals(2) this] obtain t1 where
    r1: "readFileEntry ?pl
           (blob_stream (fetched_behind merged_archive merged_a merged_entry_a)) False
           = Inr (Some merged_b, t1)"
    and c1: "concat t1 = take (local_size merged_ab + 10176) (drop 64 merged_archive)"
    by (auto simp: merged_sizes)
  from readFileEntry_from_range[OF merged_locals(3) c1] obtain t2 where
    r2: "readFileEntry ?pl t1 False = Inr (Some merged_ab, t2)"
    and c2: "concat t2 = take 10176 (drop 97 merged_archive)"
    by (auto simp: merged_sizes)
  have "signature_at (concat t2) \<noteq> SIGNATURE_FILE"
    by (simp add: c2 signature_at_take)
       (simp add: merged_archive_def signature_at_def u32_def zero_padded_def le_nat_def
          SIGNATURE_FILE_def)
  then obtain t3 where r3: "readFileEntry ?pl t2 False = Inr (None, t3)"
    by (simp add: readFileEntry_False)
  have p2: "fetchPartitionedEntries_pull ?pl [([merged_entry_a], t2)] = Inr []"
    by (subst fetchPartitionedEntries_pull.simps(2)) (simp add: r3)
  have p1: "fetchPartitionedEntries_pull ?pl [([merged_entry_a], t1)] = Inr []"
    by (subst fetchPartitionedEntries_pull.simps(2)) (simp add: r2 p2 merged_names)
  show "fetchPartitionedEntries_pull ?pl
     [([merged_entry_a], blob_stream (fetched_behind merged_archive merged_a merged_entry_a))]
     = Inr []"
    by (subst fetchPartitionedEntries_pull.simps(2)) (simp add: r1 p1 merged_names)
  \<comment> \<open>behind \<^verbatim>\<open>b\<close>: the cut record, whose name is not that of \<^verbatim>\<open>b\<close>\<close>
  have "concat (blob_stream (fetched_behind merged_archive merged_b merged_entry_b))
          = take 31 (drop 64 merged_archive)"
    by (simp add: fb)
  from merged_cut_decoded[OF this] obtain t4 where
    r4: "readFileEntry ?pl
           (blob_stream (fetched_behind merged_archive merged_b merged_entry_b)) False
           = Inr (Some merged_cut, t4)" and c4: "concat t4 = []"
    by blast
  have p4: "fetchPartitionedEntries_pull ?pl [([merged_entry_b], t4)] = Inr []"
    by (simp add: pull_exhausted[OF c4])
  show "fetchPartitionedEntries_pull ?pl
     [([merged_entry_b], blob_stream (fetched_behind merged_archive merged_b merged_entry_b))]
     = Inr []"
    by (subst fetchPartitionedEntries_pull.simps(2)) (simp add: r4 p4 merged_names)
  have "harmless ?pl merged_archive merged_ab merged_entry_ab"
    by (rule harmless_if) (simp_all add: merged_entry_ab_def)
  then show "fetchPartitionedEntries_pull ?pl
     [([merged_entry_ab],
       blob_stream (fetched_behind merged_archive merged_ab merged_entry_ab))]
     = Inr []"
    by (simp add: harmless_def)
qed

section \<open>The claims\<close>

text \<open>
  C4, as stated, fails. When the source ends early \<^verbatim>\<open>limitBytes\<close> closes the limited
  stream and \<^verbatim>\<open>concatNBytes\<close> enqueues its whole zero-filled buffer: reading 4 bytes
  from a stream that holds the two bytes 1 and 2 returns the padded buffer 1, 2, 0, 0
  and does not fail.
\<close>

theorem readBytes_short_source_is_padded:
  "readBytes [[1, 2]] (Some 4) = Inr ([1, 2, 0, 0], [])"
  by (simp add: readBytes_def limitBytes_def concatNBytes_def view_set_def numeral_eq_Suc)

text \<open>
  C4, amended. \<^verbatim>\<open>readBytes\<close> with a byte count \<open>n\<close> never fails and always returns
  exactly \<open>n\<close> bytes: the first \<open>n\<close> bytes of the source when it holds that many,
  otherwise every byte the source holds followed by zero bytes up to length \<open>n\<close>. The
  stream is left behind the bytes consumed.
\<close>

theorem readBytes_exact_or_zero_padded:
  "\<exists>stream'.
     readBytes stream (Some n)
       = Inr (take n (concat stream) @ replicate (n - length (concat stream)) 0, stream')
     \<and> concat stream' = drop n (concat stream)
     \<and> length (take n (concat stream) @ replicate (n - length (concat stream)) 0) = n"
  using readBytes_Some[of stream n] limitBytes_rest[of stream n] by auto

text \<open>
  C5. The partitions emitted for a finite input, concatenated in the order of emission,
  are the input: no record is dropped, duplicated or moved.
\<close>

theorem partition_covers_input:
  "concat (partitionNearbyEntries maxGap es) = es"
  by (simp add: partitionNearbyEntries_def concat_partition_run partition_init_def)

text \<open>
  C6, as stated, fails: with the default \<open>maxGap\<close> the first record always exceeds
  \<open>lastFileEndsAt + maxGap = - 10240\<close>, so the still empty \<^verbatim>\<open>currentChunk\<close> is enqueued
  before the record is appended. For the one-record input \<open>[entry_a]\<close> (sorted by
  \<open>firstByteAt\<close>) the partitions emitted are \<open>[]\<close> and \<open>[entry_a]\<close>.
\<close>

theorem partition_emits_empty_first:
  "sorted (map firstByteAt [entry_a])
   \<and> partitionNearbyEntries default_maxGap [entry_a] = [[], [entry_a]]"
  by (simp add: partitionNearbyEntries_def partition_init_def partition_transform_def
      partition_flush_def default_maxGap_def)

text \<open>
  C6, amended. For every input and the default \<open>maxGap\<close>, the first partition emitted
  is empty and every partition emitted after it is non-empty.
\<close>

theorem partition_only_first_empty:
  "\<exists>ps. partitionNearbyEntries default_maxGap es = [] # ps \<and> [] \<notin> set ps"
proof (cases es)
  case Nil
  then show ?thesis
    by (simp add: partitionNearbyEntries_def partition_init_def partition_flush_def)
next
  case (Cons e es')
  let ?st = "\<lparr>lastFileEndsAt = lastByteAt e, currentChunk = [e]\<rparr>"
  have "partitionNearbyEntries default_maxGap es
          = [] # partition_run default_maxGap ?st es'"
    using Cons
    by (simp add: partitionNearbyEntries_def partition_init_def partition_transform_def
        default_maxGap_def)
  moreover have "[] \<notin> set (partition_run default_maxGap ?st es')"
    by (rule partition_run_no_empty) simp
  ultimately show ?thesis by blast
qed

text \<open>
  C9. The default predicate keeps an entry exactly when it is not a directory entry of
  uncompressed size 0: a directory entry of non-zero size is kept, an entry that is not a
  directory is kept whatever its size, a directory entry of size 0 is dropped.
\<close>

theorem predicate_excludes_only_empty_directories:
  "predicate e = (\<not> (isDirectory e \<and> uncompressedSize e = 0))
   \<and> predicate (e\<lparr>isDirectory := True, uncompressedSize := Suc n\<rparr>)
   \<and> predicate (e\<lparr>isDirectory := False, uncompressedSize := m\<rparr>)
   \<and> \<not> predicate (e\<lparr>isDirectory := True, uncompressedSize := 0\<rparr>)"
  by (simp add: predicate_def)

theorem predicate_on_examples:
  "predicate entry_a
   \<and> predicate (entry_a\<lparr>isDirectory := True, uncompressedSize := Suc 0\<rparr>)
   \<and> predicate (entry_a\<lparr>isDirectory := False, uncompressedSize := 0\<rparr>)
   \<and> \<not> predicate (entry_a\<lparr>isDirectory := True, uncompressedSize := 0\<rparr>)"
  using predicate_excludes_only_empty_directories[of entry_a 0 0]
  by (simp add: entry_a_def)

text \<open>
  C10. At the end of the input the four-byte signature read returns four zero bytes,
  which decode to 0 and match none of the three signatures; \<^verbatim>\<open>readNextEntry\<close> returns
  \<^verbatim>\<open>null\<close> and the \<^verbatim>\<open>pull\<close> callback of \<^verbatim>\<open>zipEntries\<close> closes the sequence without
  an error.
\<close>

theorem zipEntries_closes_at_end_of_stream:
  "concat stream = [] \<Longrightarrow>
     (\<exists>stream'. readBytes stream (Some 4) = Inr ([0, 0, 0, 0], stream')
        \<and> concat stream' = []
        \<and> readNextEntry pl stream = Inr (None, stream')
        \<and> zipEntries_pull pl stream = Inr (Close, stream'))
     \<and> 0 \<notin> {SIGNATURE_FILE, SIGNATURE_CENTRAL_DIRECTORY_START,
              SIGNATURE_CENTRAL_DIRECTORY_END}"
proof -
  assume empty: "concat stream = []"
  let ?s = "snd (limitBytes stream 4)"
  have rb: "readBytes stream (Some 4) = Inr ([0, 0, 0, 0], ?s)"
    using readBytes_Some[of stream 4] empty by (simp add: numeral_eq_Suc)
  have rest: "concat ?s = []"
    using limitBytes_rest[of stream 4] empty by simp
  have sig: "readSignature stream = Inr (0, ?s)"
    by (simp add: readSignature_def rb getUint32_def le_nat_def)
  have next_entry: "readNextEntry pl stream = Inr (None, ?s)"
    by (simp add: readNextEntry_def sig SIGNATURE_FILE_def
        SIGNATURE_CENTRAL_DIRECTORY_START_def SIGNATURE_CENTRAL_DIRECTORY_END_def)
  have "zipEntries_pull pl stream = Inr (Close, ?s)"
    by (simp add: zipEntries_pull_def next_entry)
  with rb rest next_entry show ?thesis
    by (auto simp: SIGNATURE_FILE_def SIGNATURE_CENTRAL_DIRECTORY_START_def
        SIGNATURE_CENTRAL_DIRECTORY_END_def)
qed

theorem zipEntries_closes_on_closed_stream:
  "concat ([] :: stream) = []
   \<and> readNextEntry ascii_platform [] = Inr (None, [])
   \<and> zipEntries_pull ascii_platform [] = Inr (Close, [])"
proof -
  have e: "concat ([] :: stream) = []" by simp
  from zipEntries_closes_at_end_of_stream[OF e, of ascii_platform]
  obtain s' where "readBytes [] (Some 4) = Inr ([0, 0, 0, 0], s')"
    and "readNextEntry ascii_platform [] = Inr (None, s')"
    and "zipEntries_pull ascii_platform [] = Inr (Close, s')"
    by blast
  moreover have "readBytes [] (Some 4) = Inr ([0, 0, 0, 0], [])"
    by (simp add: readBytes_def limitBytes_def concatNBytes_def numeral_eq_Suc)
  ultimately show ?thesis by simp
qed

text \<open>
  C3, on the code. When no chunk holds the signature the \<^verbatim>\<open>do ... while\<close> loop is left
  only through its condition \<^verbatim>\<open>chunkStart >= 0\<close>, and \<^verbatim>\<open>chunkStart\<close> is a maximum with
  0: the condition is always true. For every source that serves a non-empty archive
  without the signature, the locator is still running after any number of iterations;
  it never fails with "Central directory not found".
\<close>

theorem locator_never_returns_without_signature:
  assumes "serves source data" and "data \<noteq> []" and "no_signature data"
  shows "streamCentralDirectory fuel source = None"
  using assms loop_without_signature[OF assms, of "int (length data)" fuel "[]"]
  by (simp add: streamCentralDirectory_def serves_def)

theorem locator_never_returns_on_truncated_archive:
  "serves (memorySource truncated_archive) truncated_archive
   \<and> truncated_archive \<noteq> []
   \<and> no_signature truncated_archive
   \<and> (\<forall>fuel. streamCentralDirectory fuel (memorySource truncated_archive) = None)"
proof -
  have s: "serves (memorySource truncated_archive) truncated_archive"
    by (rule serves_memorySource)
  have n: "truncated_archive \<noteq> []" by (simp add: truncated_archive_def)
  have g: "no_signature truncated_archive"
    by (rule no_signature_without_6) (simp add: truncated_archive_def)
  from locator_never_returns_without_signature[OF s n g] s n g show ?thesis by simp
qed

text \<open>
  C7. However the writes, the grants of the gate and the settlements of the range
  requests are interleaved, at most 10 range requests are outstanding at any time, and
  while 10 are outstanding no further call of \<^verbatim>\<open>requestChunkRange\<close> gets past
  \<^verbatim>\<open>sem.acquire()\<close>. A request counts as outstanding from the call of
  \<^verbatim>\<open>source.streamBytes\<close> until the promise it returned is settled.
\<close>

theorem gate_bounds_outstanding_requests:
  assumes "fetcher_run source evs fetcher_init = Some st"
  shows "outstanding st \<le> 10
         \<and> (outstanding st = 10 \<longrightarrow> fetcher_step source (Acquired i) st = None)"
proof -
  from gate_inv_run[OF gate_inv_init assms]
  have inv: "concurrency (gate st) = 10" "running (gate st) = outstanding st"
    "running (gate st) \<le> 10"
    by (simp_all add: gate_inv_def)
  then have "outstanding st = 10 \<Longrightarrow> sem_acquire (gate st) = None"
    by (simp add: sem_acquire_def)
  with inv show ?thesis by auto
qed

theorem gate_holds_back_the_eleventh_request:
  "\<exists>st. fetcher_run (memorySource []) eleven_partitions fetcher_init = Some st
     \<and> length (calls st) = 11
     \<and> outstanding st = 10
     \<and> fetcher_step (memorySource []) (Acquired 10) st = None"
proof -
  obtain st where st: "fetcher_run (memorySource []) eleven_partitions fetcher_init = Some st"
    and n: "length (calls st) = 11" and o: "outstanding st = 10"
    by (simp add: eleven_partitions_def fetcher_init_def sem_def sem_acquire_def
        chunkRange_def entry_a_def outstanding_def Let_def)
  from gate_bounds_outstanding_requests[OF st, of 10] o
  have "fetcher_step (memorySource []) (Acquired 10) st = None" by simp
  with st n o show ?thesis by blast
qed

text \<open>
  C8. \<^verbatim>\<open>write\<close> returns at once for an empty partition: no call of
  \<^verbatim>\<open>requestChunkRange\<close> is started, no range is requested and nothing is queued for the
  consumer; the fetcher is left as it was. Hence every call of \<^verbatim>\<open>requestChunkRange\<close>
  that was ever started has a non-empty partition, and its two index expressions
  yield the first record's \<open>firstByteAt\<close> and the last record's \<open>lastByteAt\<close>.
\<close>

theorem empty_partition_is_noop:
  "fetcher_step source (Write []) st = Some st
   \<and> (fetcher_run source evs fetcher_init = Some st' \<longrightarrow>
        (\<forall>c \<in> set (calls st').
           fst c \<noteq> []
           \<and> chunkRange (fst c)
               = Inr (int (firstByteAt (hd (fst c))), lastByteAt (last (fst c)))))"
proof -
  have "\<forall>c \<in> set (calls st'). fst c \<noteq> []"
    if "fetcher_run source evs fetcher_init = Some st'"
    using calls_nonempty_run[OF _ that] by (simp add: fetcher_init_def)
  moreover have "chunkRange ps = Inr (int (firstByteAt (hd ps)), lastByteAt (last ps))"
    if "ps \<noteq> []" for ps
    using that by (cases ps) (simp_all add: chunkRange_def)
  ultimately show ?thesis by auto
qed

theorem empty_partition_is_skipped_example:
  "fetcher_run (memorySource []) [Write [], Write [entry_a], Acquired 0] fetcher_init
     = Some (fetcher_init\<lparr>requestsInProgress := 1,
               calls := [([entry_a], Requesting 0 46)],
               gate := sem\<lparr>running := 1\<rparr>\<rparr>)
   \<and> chunkRange [entry_a] = Inr (0, 46)"
proof -
  have run: "fetcher_run (memorySource []) [Write [], Write [entry_a], Acquired 0] fetcher_init
     = Some (fetcher_init\<lparr>requestsInProgress := 1,
               calls := [([entry_a], Requesting 0 46)],
               gate := sem\<lparr>running := 1\<rparr>\<rparr>)"
    by (simp add: fetcher_init_def sem_def sem_acquire_def chunkRange_def entry_a_def Let_def)
  from empty_partition_is_noop[of "memorySource []" fetcher_init
      "[Write [], Write [entry_a], Acquired 0]"] run
  show ?thesis by (simp add: fetcher_init_def chunkRange_def entry_a_def)
qed

text \<open>
  C2, on the code. The third case fails. When the record is found in a chunk that holds
  fewer than its first 20 bytes, the code checks the length of the accumulated buffer
  \<^verbatim>\<open>centralDirectory\<close> but then reads the directory offset through \<^verbatim>\<open>view\<close>, the
  \<^verbatim>\<open>DataView\<close> of the newly fetched chunk alone, and \<^verbatim>\<open>getUint32\<close> throws a RangeError.
  This holds for every archive of at least two chunks whose record starts in the
  chunk before the last one and whose offset field reaches into the last one.
\<close>

theorem locator_fails_when_record_straddles:
  assumes sv: "serves source data"
    and long: "102400 \<le> length data"
    and lo: "length data - 102400 \<le> e" and hi: "e + 4 \<le> length data - 51200"
    and sig: "le_nat (take 4 (drop e data)) = SIGNATURE_CENTRAL_DIRECTORY_END"
    and cross: "length data - 51200 < e + 20"
    and after: "no_signature (take (length data - 51200 - (e + 1)) (drop (e + 1) data))"
    and tail: "no_signature (drop (length data - 51200) data)"
  shows "streamCentralDirectory (Suc (Suc fuel)) source = Some (Inl RangeError)"
  using assms by (rule locator_range_error)

theorem locator_fails_on_straddling_archive:
  "serves (memorySource straddling_archive) straddling_archive
   \<and> length straddling_archive = 102400
   \<and> le_nat (take 4 (drop 51188 straddling_archive)) = SIGNATURE_CENTRAL_DIRECTORY_END
   \<and> (\<forall>fuel. streamCentralDirectory (Suc (Suc fuel)) (memorySource straddling_archive)
         = Some (Inl RangeError))"
proof -
  have sv: "serves (memorySource straddling_archive) straddling_archive"
    by (rule serves_memorySource)
  have sig: "le_nat (take 4 (drop 51188 straddling_archive)) = SIGNATURE_CENTRAL_DIRECTORY_END"
    by (simp add: straddling_at le_nat_def SIGNATURE_CENTRAL_DIRECTORY_END_def)
  have after: "no_signature (take (length straddling_archive - 51200 - (51188 + 1))
                 (drop (51188 + 1) straddling_archive))"
    by (rule no_signature_without_80) (simp add: straddling_len straddling_after)
  have tail: "no_signature (drop (length straddling_archive - 51200) straddling_archive)"
    by (rule no_signature_without_80) (simp add: straddling_len straddling_tail)
  have "streamCentralDirectory (Suc (Suc fuel)) (memorySource straddling_archive)
          = Some (Inl RangeError)" for fuel
    by (rule locator_fails_when_record_straddles[OF sv _ _ _ sig _ after tail])
       (simp_all add: straddling_len)
  with sv sig straddling_len show ?thesis by simp
qed




end
